theory Spec2Isabelle
  imports Complex_Main "HOL-Library.Word" "HOL-Library.Signed_Division"
begin

section \<open>Smart Time System: data model\<close>

text \<open>
  The class \<^verbatim>\<open>smart_tm\<close> of \<^verbatim>\<open>smart_tm.h\<close>. The six \<^verbatim>\<open>long long\<close> fields are
  integers (signed overflow is undefined in C++ and is outside the model); the field
  \<^verbatim>\<open>min\<close> is called \<open>min_tm\<close>, since \<open>min\<close> is a constant of HOL. The \<^verbatim>\<open>double\<close>
  field \<^verbatim>\<open>fracSec\<close> is a real number, and the operations on doubles round
  (subsection \<open>Double arithmetic\<close>). Values of type \<^verbatim>\<open>size_t\<close> are 64-bit words.
\<close>

record smart_tm =
  yr :: int
  mon :: int
  day :: int
  hr :: int
  min_tm :: int
  sec :: int
  fracSec :: real

text \<open>
  The static members of the class: the two leap-second tables, the epoch and the
  \<^verbatim>\<open>initialized\<close> flag. \<open>cerr\<close> is the list of diagnostics written to the error
  stream so far, the oldest first.
\<close>

record sys =
  leapSecondTMs :: "smart_tm list"
  leapSecondDeltas :: "64 word list"
  epoch :: smart_tm
  initialized :: bool
  cerr :: "string list"

definition DEFAULT_EPOCH_YEAR :: int where
  "DEFAULT_EPOCH_YEAR = 1900"

definition END_YR :: int where
  "END_YR = 9999"

text \<open>
  The seven-argument constructor stores its arguments. The static initialisers of
  \<^verbatim>\<open>smart_tm.cpp\<close> give the state before any call of \<^verbatim>\<open>init\<close>.
\<close>

definition mk_tm :: "int \<Rightarrow> int \<Rightarrow> int \<Rightarrow> int \<Rightarrow> int \<Rightarrow> int \<Rightarrow> real \<Rightarrow> smart_tm" where
  "mk_tm y mo d h mi s f =
     \<lparr>yr = y, mon = mo, day = d, hr = h, min_tm = mi, sec = s, fracSec = f\<rparr>"

definition initial_sys :: sys where
  "initial_sys =
     \<lparr>leapSecondTMs = [], leapSecondDeltas = [],
      epoch = mk_tm DEFAULT_EPOCH_YEAR 1 1 0 0 0 0,
      initialized = False, cerr = []\<rparr>"

text \<open>The table \<^verbatim>\<open>days\<close>; reading it outside \<open>0..11\<close> is undefined in C++: \<open>None\<close>.\<close>

definition days :: "int list" where
  "days = [31, 28, 31, 30, 31, 30, 31, 31, 30, 31, 30, 31]"

definition days_at :: "int \<Rightarrow> int option" where
  "days_at i = (if 0 \<le> i \<and> i < 12 then Some (days ! nat i) else None)"

subsection \<open>Comparison\<close>

definition tm_less :: "smart_tm \<Rightarrow> smart_tm \<Rightarrow> bool" where
  "tm_less lhs rhs =
     (if yr lhs = yr rhs then
        (if mon lhs = mon rhs then
           (if day lhs = day rhs then
              (if hr lhs = hr rhs then
                 (if min_tm lhs = min_tm rhs then
                    (if sec lhs = sec rhs then fracSec lhs < fracSec rhs
                     else sec lhs < sec rhs)
                  else min_tm lhs < min_tm rhs)
               else hr lhs < hr rhs)
            else day lhs < day rhs)
         else mon lhs < mon rhs)
      else yr lhs < yr rhs)"

definition tm_greater :: "smart_tm \<Rightarrow> smart_tm \<Rightarrow> bool" where
  "tm_greater lhs rhs = tm_less rhs lhs"

definition equalsNoFrac :: "smart_tm \<Rightarrow> smart_tm \<Rightarrow> bool" where
  "equalsNoFrac t other \<longleftrightarrow>
     yr t = yr other \<and> mon t = mon other \<and> day t = day other \<and> hr t = hr other \<and>
     min_tm t = min_tm other \<and> sec t = sec other"

definition equalsWithFrac :: "smart_tm \<Rightarrow> smart_tm \<Rightarrow> bool" where
  "equalsWithFrac t other \<longleftrightarrow> equalsNoFrac t other \<and> fracSec t = fracSec other"

subsection \<open>Leap years and leap days\<close>

text \<open>
  The free function \<^verbatim>\<open>isLeapYear(size_t)\<close> computes with unsigned remainders, the
  member function with the remainder of \<^verbatim>\<open>long long\<close>, which truncates (\<open>smod\<close>).
  Division of \<^verbatim>\<open>long long\<close> truncates towards zero as well (\<open>sdiv\<close>).
\<close>

definition isLeapYear_yr :: "64 word \<Rightarrow> bool" where
  "isLeapYear_yr y \<longleftrightarrow> y mod 4 = 0 \<and> (y mod 400 = 0 \<or> y mod 100 \<noteq> 0)"

definition isLeapYear :: "smart_tm \<Rightarrow> bool" where
  "isLeapYear t \<longleftrightarrow> yr t smod 4 = 0 \<and> (yr t smod 400 = 0 \<or> yr t smod 100 \<noteq> 0)"

definition leapDaysSinceYear0 :: "int \<Rightarrow> int" where
  "leapDaysSinceYear0 calcYr = calcYr sdiv 4 + calcYr sdiv 400 - calcYr sdiv 100"

definition leapDaysWalkedThroughFrom_yr :: "64 word \<Rightarrow> 64 word \<Rightarrow> int" where
  "leapDaysWalkedThroughFrom_yr startYr endYr =
     (let calcYr = sint (if isLeapYear_yr startYr then startYr - 1 else startYr);
          startCount = leapDaysSinceYear0 calcYr;
          calcYr' = sint (if isLeapYear_yr endYr then endYr - 1 else endYr)
      in leapDaysSinceYear0 calcYr' - startCount)"

definition calcYr_tm :: "smart_tm \<Rightarrow> int" where
  "calcYr_tm t =
     (if isLeapYear t \<and> ((mon t - 1 = 1 \<and> day t \<le> 29) \<or> mon t - 1 = 0)
      then yr t - 1 else yr t)"

definition leapDaysWalkedThroughFrom_tm :: "smart_tm \<Rightarrow> smart_tm \<Rightarrow> int" where
  "leapDaysWalkedThroughFrom_tm start end =
     (let startCount = leapDaysSinceYear0 (calcYr_tm start)
      in leapDaysSinceYear0 (calcYr_tm end) - startCount)"

definition numSecondsBetweenEpochs :: "64 word \<Rightarrow> 64 word \<Rightarrow> 64 word" where
  "numSecondsBetweenEpochs startYr endYr =
     (endYr - startYr) * 31536000 +
     word_of_int (leapDaysWalkedThroughFrom_yr startYr endYr * 86400)"

subsection \<open>Leap seconds\<close>

primrec isLeapMinute_loop :: "smart_tm \<Rightarrow> smart_tm list \<Rightarrow> bool" where
  "isLeapMinute_loop t [] = False"
| "isLeapMinute_loop t (leapSecond # rest) =
     (if yr t = yr leapSecond \<and> mon t = mon leapSecond \<and> day t = day leapSecond \<and>
         hr t = hr leapSecond \<and> min_tm t = min_tm leapSecond
      then True else isLeapMinute_loop t rest)"

definition isLeapMinute :: "sys \<Rightarrow> smart_tm \<Rightarrow> bool" where
  "isLeapMinute S t = isLeapMinute_loop t (leapSecondTMs S)"

definition numSecondsOfMinute :: "sys \<Rightarrow> smart_tm \<Rightarrow> int" where
  "numSecondsOfMinute S t = (if isLeapMinute S t then 61 else 60)"

primrec leapSecondsSinceEpoch_loop :: "smart_tm \<Rightarrow> smart_tm list \<Rightarrow> 64 word \<Rightarrow> 64 word" where
  "leapSecondsSinceEpoch_loop t [] ret = ret"
| "leapSecondsSinceEpoch_loop t (leapSecond # rest) ret =
     leapSecondsSinceEpoch_loop t rest
       (if tm_greater t leapSecond \<and> \<not> equalsNoFrac t leapSecond then ret + 1 else ret)"

definition leapSecondsWalkedThroughSinceEpoch :: "sys \<Rightarrow> smart_tm \<Rightarrow> 64 word" where
  "leapSecondsWalkedThroughSinceEpoch S t = leapSecondsSinceEpoch_loop t (leapSecondTMs S) 0"

definition leapDaysWalkedThroughSinceEpoch :: "sys \<Rightarrow> smart_tm \<Rightarrow> 64 word" where
  "leapDaysWalkedThroughSinceEpoch S t = word_of_int (leapDaysWalkedThroughFrom_tm (epoch S) t)"

primrec leapSeconds_fwd_loop :: "64 word \<Rightarrow> 64 word \<Rightarrow> 64 word list \<Rightarrow> int \<Rightarrow> int" where
  "leapSeconds_fwd_loop start end [] ret = ret"
| "leapSeconds_fwd_loop start end (leapSecond # rest) ret =
     leapSeconds_fwd_loop start end rest
       (if end \<ge> leapSecond \<and> start \<le> leapSecond then ret + 1 else ret)"

primrec leapSeconds_bwd_loop :: "64 word \<Rightarrow> 64 word \<Rightarrow> 64 word list \<Rightarrow> int \<Rightarrow> int" where
  "leapSeconds_bwd_loop start end [] ret = ret"
| "leapSeconds_bwd_loop start end (leapSecond # rest) ret =
     leapSeconds_bwd_loop start end rest
       (if start \<ge> leapSecond \<and> end \<le> leapSecond then ret - 1 else ret)"

definition leapSecondsWalkedThroughFrom :: "sys \<Rightarrow> 64 word \<Rightarrow> 64 word \<Rightarrow> int" where
  "leapSecondsWalkedThroughFrom S start end =
     (if end > start then leapSeconds_fwd_loop start end (leapSecondDeltas S) 0
      else leapSeconds_bwd_loop start end (leapSecondDeltas S) 0)"

subsection \<open>Seconds since the epoch\<close>

text \<open>
  \<^verbatim>\<open>toEpoch\<close> adds up in \<^verbatim>\<open>size_t\<close>, so every term is taken modulo \<open>2^64\<close>. Its first
  loop reads \<^verbatim>\<open>days[i]\<close> for \<open>i < mon - 1\<close>.
\<close>

function toEpoch_months :: "int \<Rightarrow> int \<Rightarrow> 64 word \<Rightarrow> 64 word option" where
  "toEpoch_months i m sm =
     (if i < m - 1 then
        (case days_at i of
           None \<Rightarrow> None
         | Some d \<Rightarrow> toEpoch_months (i + 1) m (sm + word_of_int (d * 86400)))
      else Some sm)"
  by pat_completeness auto
termination
  by (relation "measure (\<lambda>(i, m, s). nat (m - 1 - i))") auto

declare toEpoch_months.simps [simp del]

definition toEpoch :: "sys \<Rightarrow> smart_tm \<Rightarrow> 64 word option" where
  "toEpoch S t =
     (case toEpoch_months 0 (mon t) 0 of
        None \<Rightarrow> None
      | Some sm \<Rightarrow>
          Some (sm +
                (word_of_int (yr t - yr (epoch S)) * 31536000 +
                 word_of_int ((day t - 1) * 86400) +
                 word_of_int ((hr t - 0) * 3600) +
                 word_of_int ((min_tm t - 0) * 60) +
                 leapDaysWalkedThroughSinceEpoch S t * 86400 +
                 leapSecondsWalkedThroughSinceEpoch S t)
                + word_of_int (sec t) - 0))"


section \<open>Normalisation\<close>

subsection \<open>The limits of the fields\<close>

definition numDaysOfMonth :: "smart_tm \<Rightarrow> int option" where
  "numDaysOfMonth t =
     (if mon t - 1 = 1 \<and> isLeapYear t then Some (days ! 1 + 1) else days_at (mon t - 1))"

definition yrInLimits :: "sys \<Rightarrow> smart_tm \<Rightarrow> bool" where
  "yrInLimits S t \<longleftrightarrow> yr t \<ge> yr (epoch S) \<and> yr t \<le> END_YR"

definition monInLimits :: "smart_tm \<Rightarrow> bool" where
  "monInLimits t \<longleftrightarrow> mon t \<ge> 1 \<and> mon t \<le> 12"

text \<open>\<^verbatim>\<open>&&\<close> evaluates its right operand, which reads the table, only if \<open>day \<ge> 1\<close>.\<close>

definition dayInLimits :: "smart_tm \<Rightarrow> bool option" where
  "dayInLimits t =
     (if day t \<ge> 1 then
        (case numDaysOfMonth t of None \<Rightarrow> None | Some n \<Rightarrow> Some (day t \<le> 1 + n - 1))
      else Some False)"

definition hrInLimits :: "smart_tm \<Rightarrow> bool" where
  "hrInLimits t \<longleftrightarrow> hr t \<ge> 0 \<and> hr t \<le> 23"

definition minInLimits :: "smart_tm \<Rightarrow> bool" where
  "minInLimits t \<longleftrightarrow> min_tm t \<ge> 0 \<and> min_tm t \<le> 59"

definition secInLimits :: "sys \<Rightarrow> smart_tm \<Rightarrow> bool" where
  "secInLimits S t \<longleftrightarrow> sec t \<ge> 0 \<and> sec t \<le> 0 + numSecondsOfMinute S t - 1"

definition fracSecInLimits :: "smart_tm \<Rightarrow> bool" where
  "fracSecInLimits t \<longleftrightarrow> fracSec t \<ge> 0 \<and> fracSec t < 1"

definition isValid :: "sys \<Rightarrow> smart_tm \<Rightarrow> bool" where
  "isValid S t \<longleftrightarrow>
     yrInLimits S t \<and> monInLimits t \<and> dayInLimits t = Some True \<and> hrInLimits t \<and>
     minInLimits t \<and> secInLimits S t \<and> fracSecInLimits t"

subsection \<open>Double arithmetic\<close>

text \<open>
  A \<^verbatim>\<open>double\<close> is a real number of the binary64 format; infinities and NaN are not
  modelled. An operation on doubles returns the exact result rounded to the nearest
  double, ties to the even significand: \<open>rd x\<close>. Near \<open>x\<close> the doubles are the multiples
  of \<open>dbl_ulp x = 2 ^ (e - 52)\<close>, where \<open>e\<close> is the binary exponent of \<open>x\<close>, not below
  \<open>-1022\<close> (the subnormal numbers share the spacing \<open>2 ^ - 1074\<close>).
\<close>

definition round_even :: "real \<Rightarrow> int" where
  "round_even y =
     (let f = \<lfloor>y\<rfloor>; r = y - of_int f
      in if r < 1 / 2 then f else if 1 / 2 < r then f + 1 else if even f then f else f + 1)"

definition dbl_exp :: "real \<Rightarrow> int" where
  "dbl_exp x = max \<lfloor>log 2 \<bar>x\<bar>\<rfloor> (- 1022)"

definition dbl_ulp :: "real \<Rightarrow> real" where
  "dbl_ulp x = 2 powi (dbl_exp x - 52)"

definition rd :: "real \<Rightarrow> real" where
  "rd x = (if x = 0 then 0 else dbl_ulp x * of_int (round_even (x / dbl_ulp x)))"

text \<open>
  The conversions and operations that the code uses: \<^verbatim>\<open>static_cast<double>\<close> of a
  \<^verbatim>\<open>long long\<close>, \<^verbatim>\<open>static_cast<long long>\<close> of a double, which truncates, and the
  quotient, difference and sum of two doubles. \<open>quot_floor k d\<close> is
  \<^verbatim>\<open>static_cast<long long>(floor(static_cast<double>(k) / static_cast<double>(d)))\<close> and
  \<open>quot_trunc k d\<close> the same without \<^verbatim>\<open>floor\<close>.
\<close>

definition dbl_of_int :: "int \<Rightarrow> real" where
  "dbl_of_int k = rd (of_int k)"

definition dbl_div :: "real \<Rightarrow> real \<Rightarrow> real" where
  "dbl_div x y = rd (x / y)"

definition dbl_sub :: "real \<Rightarrow> real \<Rightarrow> real" where
  "dbl_sub x y = rd (x - y)"

definition dbl_add :: "real \<Rightarrow> real \<Rightarrow> real" where
  "dbl_add x y = rd (x + y)"

definition dbl_to_int :: "real \<Rightarrow> int" where
  "dbl_to_int x = (if 0 \<le> x then \<lfloor>x\<rfloor> else \<lceil>x\<rceil>)"

definition quot_floor :: "int \<Rightarrow> int \<Rightarrow> int" where
  "quot_floor k d = dbl_to_int (of_int \<lfloor>dbl_div (dbl_of_int k) (dbl_of_int d)\<rfloor>)"

definition quot_trunc :: "int \<Rightarrow> int \<Rightarrow> int" where
  "quot_trunc k d = dbl_to_int (dbl_div (dbl_of_int k) (dbl_of_int d))"

definition is_double :: "real \<Rightarrow> bool" where
  "is_double x \<longleftrightarrow> rd x = x"

text \<open>Rounding: symmetry, error, and exactness on the integers below \<open>2 ^ 53\<close>.\<close>

lemma round_even_of_int [simp]: "round_even (of_int j) = j"
  by (simp add: round_even_def)

lemma round_even_err: "\<bar>of_int (round_even y) - y\<bar> \<le> 1 / 2"
proof -
  have "of_int \<lfloor>y\<rfloor> \<le> y" "y < of_int \<lfloor>y\<rfloor> + 1" by linarith+
  then show ?thesis
    by (auto simp: round_even_def Let_def)
qed

lemma round_even_minus: "round_even (- y) = - round_even y"
proof (cases "y = of_int \<lfloor>y\<rfloor>")
  case True
  then obtain j where "y = of_int j" ..
  then have "- y = of_int (- j)" by simp
  then show ?thesis unfolding \<open>y = of_int j\<close> by (metis round_even_of_int)
next
  case False
  have f: "\<lfloor>- y\<rfloor> = - \<lfloor>y\<rfloor> - 1"
    using False by (simp add: floor_minus ceiling_altdef)
  have b: "of_int \<lfloor>y\<rfloor> < y" "y < of_int \<lfloor>y\<rfloor> + 1"
    using False by linarith+
  show ?thesis
    using b by (auto simp: round_even_def Let_def f)
qed

lemma round_even_nonneg: "0 \<le> y \<Longrightarrow> 0 \<le> round_even y"
  by (auto simp: round_even_def Let_def)

lemma dbl_exp_minus [simp]: "dbl_exp (- x) = dbl_exp x"
  by (simp add: dbl_exp_def)

lemma dbl_ulp_minus [simp]: "dbl_ulp (- x) = dbl_ulp x"
  by (simp add: dbl_ulp_def)

lemma dbl_ulp_pos [simp]: "0 < dbl_ulp x"
  by (simp add: dbl_ulp_def)

lemma dbl_ulp_nonneg [simp]: "0 \<le> dbl_ulp x"
  by (simp add: dbl_ulp_def)

lemma dbl_ulp_neq0 [simp]: "dbl_ulp x \<noteq> 0"
  by (simp add: dbl_ulp_def)

lemma rd_minus: "rd (- x) = - rd x"
  by (simp add: rd_def round_even_minus)

lemma rd_0 [simp]: "rd 0 = 0"
  by (simp add: rd_def)

lemma rd_nonneg: "0 \<le> x \<Longrightarrow> 0 \<le> rd x"
proof -
  assume "0 \<le> x"
  then have "0 \<le> x / dbl_ulp x" by simp
  then have "0 \<le> round_even (x / dbl_ulp x)" by (rule round_even_nonneg)
  then show ?thesis by (simp add: rd_def)
qed

lemma powr2_powi: "(2::real) powr real_of_int e = 2 powi e"
  by (simp add: powr_real_of_int')

lemma powr2_powi_Suc: "(2::real) powr (real_of_int e + 1) = 2 powi (e + 1)"
  using powr2_powi [of "e + 1"] by simp

lemma powi2_less_D: "(2::real) powi a < 2 powi b \<Longrightarrow> a < b"
  using power_int_increasing [of b a "2::real"] by (cases "a < b") simp_all

lemma powi2_pos [simp]: "0 < (2::real) powi e"
  by simp

lemma floor_log2_bounds:
  assumes "x \<noteq> 0"
  shows "2 powi \<lfloor>log 2 \<bar>x\<bar>\<rfloor> \<le> \<bar>x\<bar>" "\<bar>x\<bar> < 2 powi (\<lfloor>log 2 \<bar>x\<bar>\<rfloor> + 1)"
proof -
  have "0 < \<bar>x\<bar>" using assms by simp
  from floor_log_eq_powr_iff [OF this, of 2 "\<lfloor>log 2 \<bar>x\<bar>\<rfloor>"]
  have "2 powr real_of_int \<lfloor>log 2 \<bar>x\<bar>\<rfloor> \<le> \<bar>x\<bar> \<and>
      \<bar>x\<bar> < 2 powr real_of_int (\<lfloor>log 2 \<bar>x\<bar>\<rfloor> + 1)"
    by simp
  then show "2 powi \<lfloor>log 2 \<bar>x\<bar>\<rfloor> \<le> \<bar>x\<bar>" "\<bar>x\<bar> < 2 powi (\<lfloor>log 2 \<bar>x\<bar>\<rfloor> + 1)"
    by (simp_all add: powr2_powi powr2_powi_Suc)
qed

lemma dbl_exp_eq:
  assumes "2 powi e \<le> \<bar>x\<bar>" "\<bar>x\<bar> < 2 powi (e + 1)" "- 1022 \<le> e"
  shows "dbl_exp x = e"
proof -
  have "0 < (2::real) powi e" by simp
  with assms(1) have "0 < \<bar>x\<bar>" by linarith
  from floor_log_eq_powr_iff [OF this, of 2 e] assms(1,2)
  have "\<lfloor>log 2 \<bar>x\<bar>\<rfloor> = e" by (simp add: powr2_powi powr2_powi_Suc)
  then show ?thesis using assms(3) by (simp add: dbl_exp_def)
qed

lemma dbl_exp_normal:
  assumes "2 powi (- 1022) \<le> \<bar>x\<bar>"
  shows "2 powi dbl_exp x \<le> \<bar>x\<bar>" "\<bar>x\<bar> < 2 powi (dbl_exp x + 1)" "- 1022 \<le> dbl_exp x"
proof -
  have "0 < (2::real) powi (- 1022)" by (rule powi2_pos)
  with assms have x: "x \<noteq> 0" by auto
  note b = floor_log2_bounds [OF x]
  have "(2::real) powi (- 1022) < 2 powi (\<lfloor>log 2 \<bar>x\<bar>\<rfloor> + 1)"
    using assms b(2) by simp
  then have "- 1022 < \<lfloor>log 2 \<bar>x\<bar>\<rfloor> + 1"
    by (rule powi2_less_D)
  then have e: "dbl_exp x = \<lfloor>log 2 \<bar>x\<bar>\<rfloor>" by (simp add: dbl_exp_def)
  show "2 powi dbl_exp x \<le> \<bar>x\<bar>" "\<bar>x\<bar> < 2 powi (dbl_exp x + 1)"
    using b by (simp_all add: e)
  show "- 1022 \<le> dbl_exp x" by (simp add: dbl_exp_def)
qed

lemma rd_err_ulp: "\<bar>rd x - x\<bar> \<le> dbl_ulp x / 2"
proof (cases "x = 0")
  case True
  then show ?thesis by simp
next
  case False
  define u where "u = dbl_ulp x"
  have u: "0 < u" by (simp add: u_def)
  have "rd x - x = u * (of_int (round_even (x / u)) - x / u)"
    using False u by (simp add: rd_def u_def algebra_simps)
  then have "\<bar>rd x - x\<bar> = u * \<bar>of_int (round_even (x / u)) - x / u\<bar>"
    using u by (simp add: abs_mult)
  also have "\<dots> \<le> u * (1 / 2)"
    using u round_even_err [of "x / u"] by (intro mult_left_mono) simp_all
  finally show ?thesis by (simp add: u_def)
qed

lemma rd_err_rel:
  assumes "2 powi (- 1022) \<le> \<bar>x\<bar>"
  shows "\<bar>rd x - x\<bar> \<le> \<bar>x\<bar> / 2 ^ 53"
proof -
  have "dbl_ulp x = 2 powi dbl_exp x / 2 ^ 52"
    by (simp add: dbl_ulp_def power_int_diff)
  also have "\<dots> \<le> \<bar>x\<bar> / 2 ^ 52"
    using dbl_exp_normal(1) [OF assms] by (simp add: divide_right_mono)
  finally have "dbl_ulp x / 2 \<le> \<bar>x\<bar> / 2 ^ 53" by simp
  with rd_err_ulp [of x] show ?thesis by linarith
qed

lemma dbl_to_int_of_int [simp]: "dbl_to_int (of_int j) = j"
  by (simp add: dbl_to_int_def)

lemma powi2_le_1: "e \<le> 0 \<Longrightarrow> (2::real) powi e \<le> 1"
  using power_int_increasing [of e 0 "2::real"] by simp

lemma rd_scaled_int:
  assumes "x \<noteq> 0" "x / dbl_ulp x = of_int j"
  shows "rd x = x"
proof -
  have "rd x = dbl_ulp x * (x / dbl_ulp x)"
    using assms by (simp add: rd_def)
  then show ?thesis by simp
qed

lemma rd_of_int:
  assumes "\<bar>k\<bar> < 2 ^ 53"
  shows "rd (of_int k) = of_int k"
proof (cases "k = 0")
  case True
  then show ?thesis by simp
next
  case False
  define x :: real where "x = of_int k"
  have "1 \<le> \<bar>k\<bar>" using False by simp
  then have "real_of_int 1 \<le> real_of_int \<bar>k\<bar>" by (simp only: of_int_le_iff)
  then have x1: "1 \<le> \<bar>x\<bar>" by (simp add: x_def)
  have "real_of_int \<bar>k\<bar> < real_of_int (2 ^ 53)"
    using assms by (simp only: of_int_less_iff)
  then have x2: "\<bar>x\<bar> < 2 powi 53" by (simp add: x_def)
  have "(2::real) powi (- 1022) \<le> 1" by (rule powi2_le_1) simp
  with x1 have n: "2 powi (- 1022) \<le> \<bar>x\<bar>" by linarith
  from dbl_exp_normal(1) [OF n] x2 have "(2::real) powi dbl_exp x < 2 powi 53" by linarith
  then have e: "dbl_exp x < 53" by (rule powi2_less_D)
  define n where "n = nat (52 - dbl_exp x)"
  have "dbl_exp x - 52 = - int n" using e by (simp add: n_def)
  then have u: "dbl_ulp x = inverse (2 ^ n)"
    by (simp add: dbl_ulp_def power_int_minus)
  have "x / dbl_ulp x = x * 2 ^ n"
    by (simp only: u divide_inverse inverse_inverse_eq)
  also have "\<dots> = of_int (k * 2 ^ n)"
    by (simp add: x_def)
  finally have "x / dbl_ulp x = of_int (k * 2 ^ n)" .
  moreover have "x \<noteq> 0" using x1 by auto
  ultimately have "rd x = x" by (rule rd_scaled_int [rotated])
  then show ?thesis by (simp add: x_def)
qed

lemma dbl_of_int_exact: "\<bar>k\<bar> < 2 ^ 53 \<Longrightarrow> dbl_of_int k = of_int k"
  by (simp add: dbl_of_int_def rd_of_int)

lemma dbl_quot_bounds:
  assumes k: "\<bar>k\<bar> < 2 ^ 53" and d: "0 < d" "d < 2 ^ 53"
  shows "of_int (k div d) \<le> rd (of_int k / of_int d)"
    and "rd (of_int k / of_int d) < of_int (k div d) + 1"
proof -
  define x :: real where "x = of_int k / of_int d"
  define q where "q = k div d"
  define r where "r = k mod d"
  have kq: "k = q * d + r" by (simp add: q_def r_def)
  have r: "0 \<le> r" "r < d" using d by (simp_all add: r_def)
  have dr: "0 < (of_int d :: real)" using d by simp
  have xq: "x = of_int q + of_int r / of_int d"
    using dr by (simp add: x_def kq add_divide_distrib)
  have "of_int q \<le> rd x \<and> rd x < of_int q + 1"
  proof (cases "r = 0")
    case True
    then have "x = of_int q" by (simp add: xq)
    moreover have "\<bar>q\<bar> < 2 ^ 53"
    proof -
      have "\<bar>q\<bar> * 1 \<le> \<bar>q\<bar> * d" using d by (intro mult_left_mono) simp_all
      also have "\<dots> = \<bar>k\<bar>" using True d by (simp add: kq abs_mult)
      finally show ?thesis using k by simp
    qed
    ultimately show ?thesis by (simp add: rd_of_int)
  next
    case False
    with r have r1: "1 \<le> r" "r \<le> d - 1" by simp_all
    have "real_of_int 1 \<le> real_of_int r"
      using r1 by (simp only: of_int_le_iff)
    then have "1 / (of_int d :: real) \<le> of_int r / of_int d"
      using dr by (intro divide_right_mono) simp_all
    then have lo: "of_int q + 1 / of_int d \<le> x"
      by (simp add: xq)
    have "real_of_int r \<le> real_of_int (d - 1)"
      using r1 by (simp only: of_int_le_iff)
    then have "of_int r / (of_int d :: real) \<le> (of_int d - 1) / of_int d"
      using dr by (intro divide_right_mono) simp_all
    then have hi: "x \<le> of_int q + 1 - 1 / of_int d"
      using dr by (simp add: xq diff_divide_distrib)
    have ax: "1 / of_int d \<le> \<bar>x\<bar>"
    proof (cases "0 \<le> q")
      case True
      then have "0 \<le> (of_int q :: real)" by simp
      with lo show ?thesis by linarith
    next
      case False
      then have "q \<le> - 1" by simp
      then have "real_of_int q \<le> real_of_int (- 1)" by (simp only: of_int_le_iff)
      then have "(of_int q :: real) \<le> - 1" by simp
      with hi show ?thesis by linarith
    qed
    have "real_of_int d < real_of_int (2 ^ 53)"
      using d(2) by (simp only: of_int_less_iff)
    then have "(of_int d :: real) < 2 ^ 53" by simp
    then have "1 / (2 ^ 53 :: real) < 1 / of_int d"
      using dr by (simp add: field_simps)
    moreover have "(2::real) powi (- 1022) \<le> 2 powi (- 53)"
      by (rule power_int_increasing) simp_all
    ultimately have n: "2 powi (- 1022) \<le> \<bar>x\<bar>"
      using ax by (simp add: power_int_minus inverse_eq_divide)
    have "\<bar>x\<bar> = \<bar>of_int k\<bar> / of_int d"
      using dr by (simp add: x_def)
    also have "\<dots> < 2 ^ 53 / of_int d"
    proof -
      have "real_of_int \<bar>k\<bar> < real_of_int (2 ^ 53)"
        using k by (simp only: of_int_less_iff)
      then show ?thesis using dr by (intro divide_strict_right_mono) simp_all
    qed
    finally have "\<bar>x\<bar> / 2 ^ 53 < 1 / of_int d"
      by (simp add: field_simps)
    with rd_err_rel [OF n] have "\<bar>rd x - x\<bar> < 1 / of_int d" by linarith
    with lo hi show ?thesis by linarith
  qed
  then show "of_int (k div d) \<le> rd (of_int k / of_int d)"
    and "rd (of_int k / of_int d) < of_int (k div d) + 1"
    by (simp_all add: x_def q_def)
qed

lemma quot_floor_exact:
  assumes "\<bar>k\<bar> < 2 ^ 53" "0 < d" "d < 2 ^ 53"
  shows "quot_floor k d = k div d"
proof -
  have "\<bar>d\<bar> < 2 ^ 53" using assms by simp
  then have "dbl_div (dbl_of_int k) (dbl_of_int d) = rd (of_int k / of_int d)"
    using assms(1) by (simp add: dbl_div_def dbl_of_int_exact)
  moreover have "\<lfloor>rd (of_int k / of_int d)\<rfloor> = k div d"
    using dbl_quot_bounds [OF assms] by (intro floor_unique) simp_all
  ultimately show ?thesis by (simp add: quot_floor_def)
qed

lemma quot_trunc_exact:
  assumes "\<bar>k\<bar> < 2 ^ 53" "0 < d" "d < 2 ^ 53"
  shows "quot_trunc k d = k sdiv d"
proof -
  have "\<bar>d\<bar> < 2 ^ 53" using assms by simp
  then have q: "dbl_div (dbl_of_int k) (dbl_of_int d) = rd (of_int k / of_int d)"
    using assms(1) by (simp add: dbl_div_def dbl_of_int_exact)
  show ?thesis
  proof (cases "0 \<le> k")
    case True
    then have "0 \<le> rd (of_int k / of_int d)"
      using assms(2) by (intro rd_nonneg) simp
    moreover have "\<lfloor>rd (of_int k / of_int d)\<rfloor> = k div d"
      using dbl_quot_bounds [OF assms] by (intro floor_unique) simp_all
    moreover have "k sdiv d = k div d"
      using True assms(2) by (simp add: signed_divide_int_def sgn_if)
    ultimately show ?thesis by (simp add: quot_trunc_def q dbl_to_int_def)
  next
    case False
    define y where "y = rd (of_int (- k) / of_int d)"
    have m: "\<bar>- k\<bar> < 2 ^ 53" using assms(1) by simp
    have y: "rd (of_int k / of_int d) = - y"
      using rd_minus [of "of_int k / of_int d"] by (simp add: y_def)
    have "0 \<le> real_of_int (- k) / real_of_int d"
      using False assms(2) by (intro divide_nonneg_nonneg) (simp_all del: of_int_minus)
    then have y0: "0 \<le> y"
      unfolding y_def by (rule rd_nonneg)
    have fy: "\<lfloor>y\<rfloor> = (- k) div d"
      unfolding y_def using dbl_quot_bounds [OF m assms(2,3)] by (intro floor_unique) simp_all
    have s: "k sdiv d = - ((- k) div d)"
      using False assms(2) by (simp add: signed_divide_int_def sgn_if)
    show ?thesis
    proof (cases "y = 0")
      case True
      with fy s show ?thesis by (simp add: quot_trunc_def q y dbl_to_int_def)
    next
      case False
      with y0 have "\<not> 0 \<le> - y" by simp
      then show ?thesis
        using fy s by (simp add: quot_trunc_def q y dbl_to_int_def ceiling_def)
    qed
  qed
qed

lemma rd_eval:
  assumes "2 powi e \<le> \<bar>x\<bar>" "\<bar>x\<bar> < 2 powi (e + 1)" "- 1022 \<le> e"
  shows "rd x = 2 powi (e - 52) * of_int (round_even (x / 2 powi (e - 52)))"
proof -
  have "0 < (2::real) powi e" by (rule powi2_pos)
  with assms(1) have "0 < \<bar>x\<bar>" by linarith
  then have "x \<noteq> 0" by simp
  then show ?thesis by (simp add: rd_def dbl_ulp_def dbl_exp_eq [OF assms])
qed

lemma round_even_down: "of_int f \<le> y \<Longrightarrow> y < of_int f + 1 / 2 \<Longrightarrow> round_even y = f"
proof -
  assume a: "of_int f \<le> y" "y < of_int f + 1 / 2"
  then have "\<lfloor>y\<rfloor> = f" by (intro floor_unique) simp_all
  then show ?thesis using a by (simp add: round_even_def Let_def)
qed

lemma round_even_up: "of_int f + 1 / 2 < y \<Longrightarrow> y < of_int f + 1 \<Longrightarrow> round_even y = f + 1"
proof -
  assume a: "of_int f + 1 / 2 < y" "y < of_int f + 1"
  then have "\<lfloor>y\<rfloor> = f" by (intro floor_unique) simp_all
  then show ?thesis using a by (simp add: round_even_def Let_def)
qed

lemma rd_below_one: "rd (1 - 1 / 2 ^ 60) = 1"
proof -
  have "rd (1 - 1 / 2 ^ 60) =
      2 powi (- 1 - 52) * of_int (round_even ((1 - 1 / 2 ^ 60) / 2 powi (- 1 - 52)))"
    by (rule rd_eval) simp_all
  moreover have "round_even ((1 - 1 / 2 ^ 60) / 2 powi (- 1 - 52)) = (2 ^ 53 - 1) + 1"
    by (rule round_even_up) simp_all
  ultimately show ?thesis by simp
qed

lemma rd_small_frac: "rd (709948810 + 1 / 2 ^ 40) = 709948810"
proof -
  have "rd (709948810 + 1 / 2 ^ 40) =
      2 powi (29 - 52) * of_int (round_even ((709948810 + 1 / 2 ^ 40) / 2 powi (29 - 52)))"
    by (rule rd_eval) simp_all
  moreover have "round_even ((709948810 + 1 / 2 ^ 40) / 2 powi (29 - 52)) = 709948810 * 2 ^ 23"
    by (rule round_even_down) simp_all
  ultimately show ?thesis by simp
qed

lemma rd_pow2: "rd (1 / 2 ^ 40) = 1 / 2 ^ 40"
proof -
  have "rd (1 / 2 ^ 40) =
      2 powi (- 40 - 52) * of_int (round_even ((1 / 2 ^ 40) / 2 powi (- 40 - 52)))"
    by (rule rd_eval) simp_all
  moreover have "round_even ((1 / 2 ^ 40) / 2 powi (- 40 - 52)) = 2 ^ 52"
    by (rule round_even_down) simp_all
  ultimately show ?thesis by simp
qed

lemma dbl_exp_of_int:
  assumes "k \<noteq> 0" "\<bar>k\<bar> < 2 ^ 53"
  shows "0 \<le> dbl_exp (of_int k)" "dbl_exp (of_int k) \<le> 52"
    "2 powi dbl_exp (of_int k) \<le> \<bar>real_of_int k\<bar>"
    "\<bar>real_of_int k\<bar> < 2 powi (dbl_exp (of_int k) + 1)"
proof -
  define x :: real where "x = of_int k"
  have "1 \<le> \<bar>k\<bar>" using assms(1) by simp
  then have "real_of_int 1 \<le> real_of_int \<bar>k\<bar>" by (simp only: of_int_le_iff)
  then have x1: "1 \<le> \<bar>x\<bar>" by (simp add: x_def)
  have "real_of_int \<bar>k\<bar> < real_of_int (2 ^ 53)"
    using assms(2) by (simp only: of_int_less_iff)
  then have x2: "\<bar>x\<bar> < 2 powi 53" by (simp add: x_def)
  have "(2::real) powi (- 1022) \<le> 1" by (rule powi2_le_1) simp
  with x1 have n: "2 powi (- 1022) \<le> \<bar>x\<bar>" by linarith
  note b = dbl_exp_normal [OF n]
  from b(1) x2 have "(2::real) powi dbl_exp x < 2 powi 53" by linarith
  then have "dbl_exp x < 53" by (rule powi2_less_D)
  then show "dbl_exp (of_int k) \<le> 52" by (simp add: x_def)
  from b(2) x1 have "(2::real) powi 0 < 2 powi (dbl_exp x + 1)" by simp
  then have "0 < dbl_exp x + 1" by (rule powi2_less_D)
  then show "0 \<le> dbl_exp (of_int k)" by (simp add: x_def)
  show "2 powi dbl_exp (of_int k) \<le> \<bar>real_of_int k\<bar>"
    "\<bar>real_of_int k\<bar> < 2 powi (dbl_exp (of_int k) + 1)"
    using b(1,2) by (simp_all add: x_def)
qed

lemma rd_dyadic:
  assumes "\<bar>k\<bar> < 2 ^ 53" "n \<le> 1022"
  shows "rd (of_int k / 2 ^ n) = of_int k / 2 ^ n"
proof (cases "k = 0")
  case True
  then show ?thesis by simp
next
  case False
  define e where "e = dbl_exp (of_int k)"
  define x :: real where "x = of_int k / 2 ^ n"
  note b = dbl_exp_of_int [OF False assms(1), folded e_def]
  have ax: "\<bar>x\<bar> = \<bar>real_of_int k\<bar> / 2 ^ n" by (simp add: x_def)
  have p: "(2::real) powi (e - int n) = 2 powi e / 2 ^ n"
    "(2::real) powi (e - int n + 1) = 2 powi (e + 1) / 2 ^ n"
    by (simp_all add: power_int_diff power_int_add)
  have "2 powi (e - int n) \<le> \<bar>x\<bar>"
    unfolding p ax using b(3) by (intro divide_right_mono) simp_all
  moreover have "\<bar>x\<bar> < 2 powi (e - int n + 1)"
    unfolding p ax using b(4) by (intro divide_strict_right_mono) simp_all
  moreover have "- 1022 \<le> e - int n" using b(1) assms(2) by simp
  ultimately have ex: "dbl_exp x = e - int n" by (rule dbl_exp_eq)
  define j where "j = nat (52 - e)"
  have "e - int n - 52 = - int (j + n)" using b(2) by (simp add: j_def)
  then have "(2::real) powi (e - int n - 52) = 2 powi (- int (j + n))" by (simp only:)
  also have "\<dots> = inverse (2 ^ (j + n))" by (simp only: power_int_minus power_int_of_nat)
  finally have u: "dbl_ulp x = inverse (2 ^ (j + n))"
    by (simp only: dbl_ulp_def ex)
  have "x / dbl_ulp x = x * 2 ^ (j + n)"
    by (simp only: u divide_inverse inverse_inverse_eq)
  also have "\<dots> = of_int (k * 2 ^ j)"
    by (simp add: x_def power_add)
  finally have "x / dbl_ulp x = of_int (k * 2 ^ j)" .
  moreover have "x \<noteq> 0" using False by (simp add: x_def)
  ultimately have "rd x = x" by (rule rd_scaled_int [rotated])
  then show ?thesis by (simp add: x_def)
qed

lemma rd_err_bound:
  assumes "\<bar>x\<bar> \<le> 2 ^ n"
  shows "\<bar>rd x - x\<bar> \<le> 2 ^ n / 2 ^ 53"
proof (cases "2 powi (- 1022) \<le> \<bar>x\<bar>")
  case True
  have "\<bar>x\<bar> / 2 ^ 53 \<le> 2 ^ n / 2 ^ 53"
    using assms by (intro divide_right_mono) simp_all
  with rd_err_rel [OF True] show ?thesis by linarith
next
  case False
  have s: "(2::real) powi (- 1074) / 2 \<le> 2 ^ n / 2 ^ 53"
  proof -
    have "(2::real) powi (- 1074) \<le> 2 powi (- 52)"
      by (rule power_int_increasing) simp_all
    then have "(2::real) powi (- 1074) / 2 \<le> 2 powi (- 52) / 2" by simp
    also have "\<dots> = 1 / 2 ^ 53" by (simp add: power_int_minus)
    also have "\<dots> \<le> 2 ^ n / 2 ^ 53" by (intro divide_right_mono) simp_all
    finally show ?thesis .
  qed
  show ?thesis
  proof (cases "x = 0")
    case True
    then show ?thesis by simp
  next
    case x: False
    from floor_log2_bounds(1) [OF x] False
    have "(2::real) powi \<lfloor>log 2 \<bar>x\<bar>\<rfloor> < 2 powi (- 1022)" by linarith
    then have "\<lfloor>log 2 \<bar>x\<bar>\<rfloor> < - 1022" by (rule powi2_less_D)
    then have "dbl_exp x = - 1022" by (simp add: dbl_exp_def)
    then have "dbl_ulp x = 2 powi (- 1074)" by (simp add: dbl_ulp_def)
    with rd_err_ulp [of x] s show ?thesis by simp
  qed
qed

text \<open>
  For integers below \<open>2 ^ 53\<close> the quotients are the integer quotients; evaluation uses
  these equations.
\<close>

declare dbl_exp_def [code del]

lemma quot_floor_code [code]:
  "quot_floor k d =
     (if \<bar>k\<bar> < 2 ^ 53 \<and> 0 < d \<and> d < 2 ^ 53 then k div d
      else dbl_to_int (of_int \<lfloor>dbl_div (dbl_of_int k) (dbl_of_int d)\<rfloor>))"
  by (simp add: quot_floor_exact) (simp add: quot_floor_def)

lemma quot_trunc_code [code]:
  "quot_trunc k d =
     (if \<bar>k\<bar> < 2 ^ 53 \<and> 0 < d \<and> d < 2 ^ 53 then k sdiv d
      else dbl_to_int (dbl_div (dbl_of_int k) (dbl_of_int d)))"
  by (simp add: quot_trunc_exact) (simp add: quot_trunc_def)


subsection \<open>Months and days\<close>

text \<open>
  The carries of \<^verbatim>\<open>fixMon\<close>, \<^verbatim>\<open>fixHr\<close>, \<^verbatim>\<open>fixMin\<close> and \<^verbatim>\<open>fixSec\<close> are
  \<^verbatim>\<open>floor\<close> of a quotient of doubles; \<^verbatim>\<open>fixDay\<close> converts the quotient to
  \<^verbatim>\<open>long long\<close> without \<^verbatim>\<open>floor\<close>.
\<close>

definition fixMon :: "smart_tm \<Rightarrow> smart_tm" where
  "fixMon t =
     (if monInLimits t then t
      else let count = quot_floor (mon t - 1) 12
           in t\<lparr>yr := yr t + count, mon := mon t - count * 12\<rparr>)"

lemma days_at_ge: "days_at i = Some n \<Longrightarrow> 28 \<le> n \<and> n \<le> 31"
proof -
  assume a: "days_at i = Some n"
  then have r: "0 \<le> i \<and> i < 12" and n: "n = days ! nat i"
    by (auto simp: days_at_def split: if_splits)
  from r have "i = 0 \<or> i = 1 \<or> i = 2 \<or> i = 3 \<or> i = 4 \<or> i = 5 \<or> i = 6 \<or> i = 7 \<or>
      i = 8 \<or> i = 9 \<or> i = 10 \<or> i = 11"
    by arith
  then show ?thesis unfolding n days_def by auto
qed

lemma numDaysOfMonth_ge: "numDaysOfMonth t = Some n \<Longrightarrow> 28 \<le> n \<and> n \<le> 31"
  by (auto simp: numDaysOfMonth_def days_def split: if_splits dest: days_at_ge)

lemma fixMon_day [simp]: "day (fixMon t) = day t"
  by (simp add: fixMon_def Let_def)

function stepMonNoLeap_fwd :: "smart_tm \<Rightarrow> smart_tm option" where
  "stepMonNoLeap_fwd t =
     (case days_at (mon t - 1) of
        None \<Rightarrow> None
      | Some n \<Rightarrow>
          if day t > 1 + n - 1
          then stepMonNoLeap_fwd (fixMon (t\<lparr>day := day t - n, mon := mon t + 1\<rparr>))
          else Some t)"
  by pat_completeness auto
termination
  by (relation "measure (\<lambda>t. nat (day t))") (auto dest: days_at_ge)

function stepMonNoLeap_bwd :: "smart_tm \<Rightarrow> smart_tm option" where
  "stepMonNoLeap_bwd t =
     (if day t < 1 then
        (let t' = fixMon (t\<lparr>mon := mon t - 1\<rparr>)
         in case days_at (mon t' - 1) of
              None \<Rightarrow> None
            | Some n \<Rightarrow> stepMonNoLeap_bwd (t'\<lparr>day := day t' + n\<rparr>))
      else Some t)"
  by pat_completeness auto
termination
  by (relation "measure (\<lambda>t. nat (1 - day t))") (auto dest: days_at_ge)

definition stepMonNoLeapCorrection :: "smart_tm \<Rightarrow> smart_tm option" where
  "stepMonNoLeapCorrection t =
     (case stepMonNoLeap_fwd t of None \<Rightarrow> None | Some t' \<Rightarrow> stepMonNoLeap_bwd t')"

function stepMon_fwd :: "smart_tm \<Rightarrow> smart_tm option" where
  "stepMon_fwd t =
     (case numDaysOfMonth t of
        None \<Rightarrow> None
      | Some n \<Rightarrow>
          if day t > 1 + n - 1
          then stepMon_fwd (fixMon (t\<lparr>day := day t - n, mon := mon t + 1\<rparr>))
          else Some t)"
  by pat_completeness auto
termination
  by (relation "measure (\<lambda>t. nat (day t))") (auto dest: numDaysOfMonth_ge)

function stepMon_bwd :: "smart_tm \<Rightarrow> smart_tm option" where
  "stepMon_bwd t =
     (if day t < 1 then
        (let t' = fixMon (t\<lparr>mon := mon t - 1\<rparr>)
         in case numDaysOfMonth t' of
              None \<Rightarrow> None
            | Some n \<Rightarrow> stepMon_bwd (t'\<lparr>day := day t' + n\<rparr>))
      else Some t)"
  by pat_completeness auto
termination
  by (relation "measure (\<lambda>t. nat (1 - day t))") (auto dest: numDaysOfMonth_ge)

definition stepMon :: "smart_tm \<Rightarrow> smart_tm option" where
  "stepMon t = (case stepMon_fwd t of None \<Rightarrow> None | Some t' \<Rightarrow> stepMon_bwd t')"

definition fixDay :: "smart_tm \<Rightarrow> smart_tm option" where
  "fixDay t =
     (case dayInLimits t of
        None \<Rightarrow> None
      | Some True \<Rightarrow> Some t
      | Some False \<Rightarrow>
          (let old = mk_tm (yr t) (mon t) 1 0 0 0 0;
               count = quot_trunc (day t - 1) 365;
               t1 = t\<lparr>yr := yr t + count, day := day t - count * 365\<rparr>
           in case stepMonNoLeapCorrection t1 of
                None \<Rightarrow> None
              | Some t2 \<Rightarrow>
                  stepMon (t2\<lparr>day := day t2 - leapDaysWalkedThroughFrom_tm old t2\<rparr>)))"

definition fixHr :: "smart_tm \<Rightarrow> smart_tm option" where
  "fixHr t =
     (if hrInLimits t then Some t
      else let count = quot_floor (hr t - 0) 24
           in fixDay (t\<lparr>day := day t + count, hr := hr t - count * 24\<rparr>))"

definition fixMin :: "smart_tm \<Rightarrow> smart_tm option" where
  "fixMin t =
     (if minInLimits t then Some t
      else let count = quot_floor (min_tm t - 0) 60
           in fixHr (t\<lparr>hr := hr t + count, min_tm := min_tm t - count * 60\<rparr>))"


subsection \<open>Seconds\<close>

text \<open>
  The loops of \<^verbatim>\<open>fixSec\<close> call \<^verbatim>\<open>fixMin\<close>; that they end rests on \<^verbatim>\<open>fixMin\<close> leaving
  the seconds alone.
\<close>

declare stepMonNoLeap_fwd.simps [simp del] stepMonNoLeap_bwd.simps [simp del]
  stepMon_fwd.simps [simp del] stepMon_bwd.simps [simp del]

definition same_clock :: "smart_tm \<Rightarrow> smart_tm \<Rightarrow> bool" where
  "same_clock t t' \<longleftrightarrow>
     hr t' = hr t \<and> min_tm t' = min_tm t \<and> sec t' = sec t \<and> fracSec t' = fracSec t"

lemma same_clock_refl [simp]: "same_clock t t"
  by (simp add: same_clock_def)

lemma same_clock_trans: "same_clock a b \<Longrightarrow> same_clock b c \<Longrightarrow> same_clock a c"
  by (simp add: same_clock_def)

lemma same_clock_fixMon [simp]: "same_clock t (fixMon t)"
  by (simp add: same_clock_def fixMon_def Let_def)

lemma same_clock_upd [simp]:
  "same_clock t (t'\<lparr>day := d\<rparr>) = same_clock t t'"
  "same_clock t (t'\<lparr>mon := m\<rparr>) = same_clock t t'"
  "same_clock t (t'\<lparr>yr := y\<rparr>) = same_clock t t'"
  "same_clock (t\<lparr>day := d\<rparr>) t' = same_clock t t'"
  "same_clock (t\<lparr>mon := m\<rparr>) t' = same_clock t t'"
  "same_clock (t\<lparr>yr := y\<rparr>) t' = same_clock t t'"
  by (simp_all add: same_clock_def)

lemma same_clock_fixMon_iff [simp]: "same_clock (fixMon t) t' = same_clock t t'"
  by (simp add: same_clock_def fixMon_def Let_def)

lemma stepMonNoLeap_fwd_clock: "stepMonNoLeap_fwd t = Some t' \<Longrightarrow> same_clock t t'"
proof (induction t rule: stepMonNoLeap_fwd.induct)
  case (1 t)
  from "1.prems" show ?case
    by (subst (asm) stepMonNoLeap_fwd.simps)
       (auto split: option.splits if_splits dest!: "1.IH")
qed

lemma stepMonNoLeap_bwd_clock: "stepMonNoLeap_bwd t = Some t' \<Longrightarrow> same_clock t t'"
proof (induction t rule: stepMonNoLeap_bwd.induct)
  case (1 t)
  from "1.prems" show ?case
    by (subst (asm) stepMonNoLeap_bwd.simps)
       (auto simp: Let_def split: option.splits if_splits dest!: "1.IH")
qed

lemma stepMon_fwd_clock: "stepMon_fwd t = Some t' \<Longrightarrow> same_clock t t'"
proof (induction t rule: stepMon_fwd.induct)
  case (1 t)
  from "1.prems" show ?case
    by (subst (asm) stepMon_fwd.simps)
       (auto split: option.splits if_splits dest!: "1.IH")
qed

lemma stepMon_bwd_clock: "stepMon_bwd t = Some t' \<Longrightarrow> same_clock t t'"
proof (induction t rule: stepMon_bwd.induct)
  case (1 t)
  from "1.prems" show ?case
    by (subst (asm) stepMon_bwd.simps)
       (auto simp: Let_def split: option.splits if_splits dest!: "1.IH")
qed

lemma fixDay_clock: "fixDay t = Some t' \<Longrightarrow> same_clock t t'"
  by (auto simp: fixDay_def stepMon_def stepMonNoLeapCorrection_def Let_def
      split: option.splits bool.splits
      dest!: stepMonNoLeap_fwd_clock stepMonNoLeap_bwd_clock stepMon_fwd_clock stepMon_bwd_clock)
     (simp add: same_clock_def)

lemma fixHr_sec: "fixHr t = Some t' \<Longrightarrow> sec t' = sec t \<and> min_tm t' = min_tm t \<and> fracSec t' = fracSec t"
  by (auto simp: fixHr_def Let_def same_clock_def split: if_splits dest!: fixDay_clock)

lemma fixMin_sec: "fixMin t = Some t' \<Longrightarrow> sec t' = sec t \<and> fracSec t' = fracSec t"
  by (auto simp: fixMin_def Let_def split: if_splits dest!: fixHr_sec)

lemma numSecondsOfMinute_ge: "60 \<le> numSecondsOfMinute S t \<and> numSecondsOfMinute S t \<le> 61"
  by (simp add: numSecondsOfMinute_def)

function fixSec_fwd :: "sys \<Rightarrow> smart_tm \<Rightarrow> smart_tm option" where
  "fixSec_fwd S t =
     (if sec t > 0 + numSecondsOfMinute S t - 1 then
        (case fixMin (t\<lparr>sec := sec t - numSecondsOfMinute S t, min_tm := min_tm t + 1\<rparr>) of
           None \<Rightarrow> None
         | Some t' \<Rightarrow> fixSec_fwd S t')
      else Some t)"
  by pat_completeness auto
termination
proof (relation "measure (\<lambda>(S, t). nat (sec t))")
  show "wf (measure (\<lambda>(S, t). nat (sec t)))" by simp
next
  fix S :: sys and t t' :: smart_tm
  assume a: "0 + numSecondsOfMinute S t - 1 < sec t"
    and b: "fixMin (t\<lparr>sec := sec t - numSecondsOfMinute S t, min_tm := min_tm t + 1\<rparr>) = Some t'"
  from fixMin_sec [OF b] have "sec t' = sec t - numSecondsOfMinute S t" by simp
  with a numSecondsOfMinute_ge [of S t]
  show "((S, t'), (S, t)) \<in> measure (\<lambda>(S, t). nat (sec t))" by simp
qed

function fixSec_bwd :: "sys \<Rightarrow> smart_tm \<Rightarrow> smart_tm option" where
  "fixSec_bwd S t =
     (if sec t < 0 then
        (case fixMin (t\<lparr>min_tm := min_tm t - 1\<rparr>) of
           None \<Rightarrow> None
         | Some t' \<Rightarrow> fixSec_bwd S (t'\<lparr>sec := sec t' + numSecondsOfMinute S t'\<rparr>))
      else Some t)"
  by pat_completeness auto
termination
proof (relation "measure (\<lambda>(S, t). nat (0 - sec t))")
  show "wf (measure (\<lambda>(S, t). nat (0 - sec t)))" by simp
next
  fix S :: sys and t t' :: smart_tm
  assume a: "sec t < 0" and b: "fixMin (t\<lparr>min_tm := min_tm t - 1\<rparr>) = Some t'"
  from fixMin_sec [OF b] have "sec t' = sec t" by simp
  with a numSecondsOfMinute_ge [of S t']
  show "((S, t'\<lparr>sec := sec t' + numSecondsOfMinute S t'\<rparr>), (S, t)) \<in> measure (\<lambda>(S, t). nat (0 - sec t))"
    by simp
qed

declare fixSec_fwd.simps [simp del] fixSec_bwd.simps [simp del]

definition fixSec :: "sys \<Rightarrow> smart_tm \<Rightarrow> smart_tm option" where
  "fixSec S t =
     (if secInLimits S t then Some t
      else
        (let addSec = sec t;
             t0 = t\<lparr>sec := 0\<rparr>
         in (case toEpoch S t0 of
               None \<Rightarrow> None
             | Some oldEpoch \<Rightarrow>
                 (let count = quot_floor (addSec - 0) 60;
                      t1 = t0\<lparr>min_tm := min_tm t0 + count\<rparr>;
                      addSec' = addSec - count * 60
                  in (case fixMin t1 of
                        None \<Rightarrow> None
                      | Some t2 \<Rightarrow>
                          (let t3 = t2\<lparr>sec := addSec'\<rparr>
                           in (case toEpoch S t3 of
                                 None \<Rightarrow> None
                               | Some newEpoch \<Rightarrow>
                                   (let t4 = t3\<lparr>sec := sec t3 -
                                              leapSecondsWalkedThroughFrom S oldEpoch newEpoch\<rparr>
                                    in (case fixMin t4 of
                                          None \<Rightarrow> None
                                        | Some t5 \<Rightarrow>
                                            (case fixSec_fwd S t5 of
                                               None \<Rightarrow> None
                                             | Some t6 \<Rightarrow> fixSec_bwd S t6))))))))))"

definition fixFracSec :: "sys \<Rightarrow> smart_tm \<Rightarrow> smart_tm option" where
  "fixFracSec S t =
     (if fracSecInLimits t then Some t
      else let count = dbl_to_int (of_int \<lfloor>dbl_sub (fracSec t) 0\<rfloor>)
           in fixSec S (t\<lparr>sec := sec t + count,
                          fracSec := dbl_sub (fracSec t) (dbl_of_int count)\<rparr>))"

definition adjust :: "sys \<Rightarrow> smart_tm \<Rightarrow> smart_tm option" where
  "adjust S t =
     (if isValid S t then Some t
      else case fixDay (fixMon t) of
             None \<Rightarrow> None
           | Some t2 \<Rightarrow>
               (case fixHr t2 of
                  None \<Rightarrow> None
                | Some t3 \<Rightarrow>
                    (case fixMin t3 of
                       None \<Rightarrow> None
                     | Some t4 \<Rightarrow>
                         (case fixSec S t4 of
                            None \<Rightarrow> None
                          | Some t5 \<Rightarrow> fixFracSec S t5))))"


section \<open>Constructors, difference and initialisation\<close>

definition checkInit :: "sys \<Rightarrow> sys" where
  "checkInit S =
     (if \<not> initialized S
      then S\<lparr>cerr := cerr S @
             [''WARN: smart_tm not initialized! This means no leap second handling'',
              ''and default epoch of 1900.'']\<rparr>
      else S)"

text \<open>\<^verbatim>\<open>smart_tm()\<close> copies the epoch.\<close>

definition smart_tm_default :: "sys \<Rightarrow> smart_tm" where
  "smart_tm_default S = epoch S"

text \<open>
  \<^verbatim>\<open>smart_tm(const size_t sinceEpoch)\<close>: the sum \<^verbatim>\<open>sec += sinceEpoch\<close> is computed in
  \<^verbatim>\<open>size_t\<close> and converted back to \<^verbatim>\<open>long long\<close>.
\<close>

definition smart_tm_sinceEpoch :: "sys \<Rightarrow> 64 word \<Rightarrow> sys \<times> smart_tm option" where
  "smart_tm_sinceEpoch S sinceEpoch =
     (let S' = checkInit S;
          t = epoch S';
          t' = t\<lparr>sec := sint (word_of_int (sec t) + sinceEpoch)\<rparr>
      in (S', adjust S' t'))"

text \<open>\<^verbatim>\<open>operator-\<close>: the difference of the two \<^verbatim>\<open>size_t\<close> is stored in a \<^verbatim>\<open>long long\<close>.\<close>

definition tm_diff :: "sys \<Rightarrow> smart_tm \<Rightarrow> smart_tm \<Rightarrow> real option" where
  "tm_diff S lhs rhs =
     (case toEpoch S lhs of
        None \<Rightarrow> None
      | Some l \<Rightarrow>
          (case toEpoch S rhs of
             None \<Rightarrow> None
           | Some r \<Rightarrow>
               (let lFracSec = fracSec lhs; rFracSec = fracSec rhs;
                    integralDiff = sint (l - r)
                in Some (dbl_add (dbl_of_int integralDiff) (dbl_sub lFracSec rFracSec)))))"

subsection \<open>Reading the leap-second file\<close>

text \<open>
  \<^verbatim>\<open>FileIO.cpp\<close>. An open stream is the text that is still unread. \<^verbatim>\<open>safeGetline\<close>
  returns the line, the rest of the stream, and whether it has set \<^verbatim>\<open>eofbit\<close>.
\<close>

fun safeGetline :: "string \<Rightarrow> string \<Rightarrow> string \<times> string \<times> bool" where
  "safeGetline [] line = (line, [], line = [])"
| "safeGetline (c # cs) line =
     (if c = CHR 0x0A then (line, cs, False)
      else if c = CHR 0x0D then
        (case cs of
           [] \<Rightarrow> (line, cs, False)
         | c' # cs' \<Rightarrow> if c' = CHR 0x0A then (line, cs', False) else (line, cs, False))
      else safeGetline cs (line @ [c]))"

lemma safeGetline_rest:
  "safeGetline is line = (l, is', eof) \<Longrightarrow>
     length is' \<le> length is \<and> (is \<noteq> [] \<longrightarrow> length is' < length is) \<and> (is = [] \<longrightarrow> eof = (line = []))"
  by (induction "is" line rule: safeGetline.induct)
     (auto split: if_splits list.splits)

lemma safeGetline_shorter:
  "safeGetline is [] = (l, is', False) \<Longrightarrow> length is' < length is"
  using safeGetline_rest [of "is" "[]" l is' False] by (cases "is") auto

function getNextLine :: "string \<Rightarrow> (string \<times> string) option" where
  "getNextLine is =
     (if \<not> snd (snd (safeGetline is [])) then
        (if fst (safeGetline is []) = [] \<or> hd (fst (safeGetline is [])) = CHR ''#''
         then getNextLine (fst (snd (safeGetline is [])))
         else Some (fst (safeGetline is []), fst (snd (safeGetline is []))))
      else None)"
  by pat_completeness auto
termination
proof (relation "measure length")
  show "wf (measure length)" by simp
next
  fix "is" :: string
  assume "\<not> snd (snd (safeGetline is []))"
  then have "safeGetline is [] = (fst (safeGetline is []), fst (snd (safeGetline is [])), False)"
    by (cases "safeGetline is []") auto
  from safeGetline_shorter [OF this]
  show "(fst (snd (safeGetline is [])), is) \<in> measure length" by simp
qed

declare getNextLine.simps [simp del]

lemma getNextLine_shorter: "getNextLine is = Some (l, is') \<Longrightarrow> length is' < length is"
proof (induction "is" rule: getNextLine.induct)
  case (1 "is")
  obtain line r eof where sg: "safeGetline is [] = (line, r, eof)"
    by (cases "safeGetline is []") auto
  from "1.prems" sg have ne: "\<not> eof"
    by (subst (asm) getNextLine.simps) (auto split: if_splits)
  with sg have sh: "length r < length is"
    by (auto dest: safeGetline_shorter)
  show ?case
  proof (cases "line = [] \<or> hd line = CHR ''#''")
    case True
    with "1.prems" sg ne have "getNextLine r = Some (l, is')"
      by (subst (asm) getNextLine.simps) auto
    with "1.IH" sg ne True sh show ?thesis by simp
  next
    case False
    with "1.prems" sg ne have "is' = r"
      by (subst (asm) getNextLine.simps) auto
    with sh show ?thesis by simp
  qed
qed

text \<open>
  The number at the start of a line:
  \<^verbatim>\<open>strtoull(strLine.substr(0, strLine.find_first_not_of("0123456789")).c_str(), nullptr, 10)\<close>,
  which is 0 without a digit and \<^verbatim>\<open>ULLONG_MAX\<close> when the number does not fit.
\<close>

definition is_digit :: "char \<Rightarrow> bool" where
  "is_digit c \<longleftrightarrow> 48 \<le> (of_char c :: int) \<and> (of_char c :: int) \<le> 57"

definition digits_value :: "string \<Rightarrow> int" where
  "digits_value ds = foldl (\<lambda>a c. a * 10 + ((of_char c :: int) - 48)) 0 ds"

definition parse_ull :: "string \<Rightarrow> 64 word" where
  "parse_ull strLine =
     (let n = digits_value (takeWhile is_digit strLine)
      in if n < 2 ^ 64 then word_of_int n else - 1)"

subsection \<open>\<^verbatim>\<open>init\<close>\<close>

function init_loop :: "sys \<Rightarrow> 64 word \<Rightarrow> string \<Rightarrow> 64 word \<Rightarrow> sys option" where
  "init_loop S defaultEpochToNewEpoch fLeap leapSecondsSoFar =
     (case getNextLine fLeap of
        None \<Rightarrow> Some S
      | Some (strLine, fLeap') \<Rightarrow>
          (let defaultEpochToLeapSecond = parse_ull strLine
           in if defaultEpochToLeapSecond > defaultEpochToNewEpoch then
                (let S1 = S\<lparr>leapSecondDeltas := leapSecondDeltas S @
                            [defaultEpochToLeapSecond - defaultEpochToNewEpoch + leapSecondsSoFar]\<rparr>
                 in case smart_tm_sinceEpoch S1 (defaultEpochToLeapSecond + leapSecondsSoFar) of
                      (S2, None) \<Rightarrow> None
                    | (S2, Some tm) \<Rightarrow>
                        init_loop
                          (S2\<lparr>leapSecondTMs := leapSecondTMs S2 @ [tm\<lparr>sec := sec tm + 1\<rparr>]\<rparr>)
                          defaultEpochToNewEpoch fLeap' (leapSecondsSoFar + 1))
              else init_loop S defaultEpochToNewEpoch fLeap' leapSecondsSoFar))"
  by pat_completeness auto
termination
  by (relation "measure (\<lambda>(S, d, f, k). length f)") (auto dest: getNextLine_shorter)

declare init_loop.simps [simp del]

text \<open>
  \<open>fs\<close> gives the text of the file at a path, \<open>None\<close> when the file cannot be opened.
\<close>

definition init :: "(string \<Rightarrow> string option) \<Rightarrow> int \<Rightarrow> string \<Rightarrow> sys \<Rightarrow> sys option" where
  "init fs epochYr leapFile S =
     (case fs leapFile of
        None \<Rightarrow> Some (S\<lparr>cerr := cerr S @ [''ERROR: Failed to open '' @ leapFile @ ''.'']\<rparr>)
      | Some fLeap \<Rightarrow>
          (let S1 = S\<lparr>leapSecondTMs := [], leapSecondDeltas := []\<rparr>;
               defaultEpochToNewEpoch =
                 numSecondsBetweenEpochs (word_of_int DEFAULT_EPOCH_YEAR) (word_of_int epochYr);
               S2 = S1\<lparr>initialized := True\<rparr>
           in case init_loop S2 defaultEpochToNewEpoch fLeap 0 of
                None \<Rightarrow> None
              | Some S3 \<Rightarrow> Some (S3\<lparr>epoch := (epoch S3)\<lparr>yr := epochYr\<rparr>\<rparr>)))"

section \<open>Notions of the specification\<close>

text \<open>The leap-year rule and the closed form for the leap days before a year.\<close>

definition is_leap :: "int \<Rightarrow> bool" where
  "is_leap y \<longleftrightarrow> y mod 4 = 0 \<and> (y mod 400 = 0 \<or> y mod 100 \<noteq> 0)"

definition leap_days_before :: "int \<Rightarrow> int" where
  "leap_days_before y = y div 4 + y div 400 - y div 100"

text \<open>Calendar order without the fractional seconds.\<close>

definition tm_before_nofrac :: "smart_tm \<Rightarrow> smart_tm \<Rightarrow> bool" where
  "tm_before_nofrac a b \<longleftrightarrow>
     yr a < yr b \<or> (yr a = yr b \<and>
       (mon a < mon b \<or> (mon a = mon b \<and>
         (day a < day b \<or> (day a = day b \<and>
           (hr a < hr b \<or> (hr a = hr b \<and>
             (min_tm a < min_tm b \<or> (min_tm a = min_tm b \<and> sec a < sec b)))))))))"

text \<open>
  The sum that the specification gives for \<^verbatim>\<open>toEpoch\<close>, as an integer: (a) the months
  before the current one, with their lengths in a common year, (b) the years since the
  epoch with 365 days each, (c) the days, hours and minutes, (d) the leap days from the
  epoch to the timestamp, (e) the recorded leap instants before the timestamp, (f) the
  seconds.
\<close>

definition toEpoch_spec :: "sys \<Rightarrow> smart_tm \<Rightarrow> int" where
  "toEpoch_spec S t =
     sum_list (map (\<lambda>d. d * 86400) (take (nat (mon t - 1)) days)) +
     (yr t - yr (epoch S)) * 365 * 86400 +
     ((day t - 1) * 86400 + hr t * 3600 + min_tm t * 60) +
     86400 * leapDaysWalkedThroughFrom_tm (epoch S) t +
     int (length (filter (\<lambda>l. tm_before_nofrac l t) (leapSecondTMs S))) +
     sec t"

subsection \<open>A leap-second file\<close>

text \<open>
  The data lines of the IERS file \<^verbatim>\<open>leap-seconds.list\<close> (seconds since 1900, TAI-UTC,
  date), with comment lines and an empty line around them, and a file system that holds
  this one file.
\<close>

definition leap_line :: "string \<Rightarrow> string \<Rightarrow> string \<Rightarrow> string" where
  "leap_line v n c = v @ [CHR 0x09] @ n @ [CHR 0x09] @ c"

definition leap_seconds_list :: string where
  "leap_seconds_list = concat (map (\<lambda>l. l @ [CHR 0x0A])
     [''#  Updated through IERS Bulletin C'', ''#'', [],
      leap_line ''2272060800'' ''10'' ''# 1 Jan 1972'',
      leap_line ''2287785600'' ''11'' ''# 1 Jul 1972'',
      leap_line ''2303683200'' ''12'' ''# 1 Jan 1973'',
      leap_line ''2335219200'' ''13'' ''# 1 Jan 1974'',
      leap_line ''2366755200'' ''14'' ''# 1 Jan 1975'',
      leap_line ''2398291200'' ''15'' ''# 1 Jan 1976'',
      leap_line ''2429913600'' ''16'' ''# 1 Jan 1977'',
      leap_line ''2461449600'' ''17'' ''# 1 Jan 1978'',
      leap_line ''2492985600'' ''18'' ''# 1 Jan 1979'',
      leap_line ''2524521600'' ''19'' ''# 1 Jan 1980'',
      leap_line ''2571782400'' ''20'' ''# 1 Jul 1981'',
      leap_line ''2603318400'' ''21'' ''# 1 Jul 1982'',
      leap_line ''2634854400'' ''22'' ''# 1 Jul 1983'',
      leap_line ''2698012800'' ''23'' ''# 1 Jul 1985'',
      leap_line ''2776982400'' ''24'' ''# 1 Jan 1988'',
      leap_line ''2840140800'' ''25'' ''# 1 Jan 1990'',
      leap_line ''2871676800'' ''26'' ''# 1 Jan 1991'',
      leap_line ''2918937600'' ''27'' ''# 1 Jul 1992'',
      leap_line ''2950473600'' ''28'' ''# 1 Jul 1993'',
      leap_line ''2982009600'' ''29'' ''# 1 Jul 1994'',
      leap_line ''3029443200'' ''30'' ''# 1 Jan 1996'',
      leap_line ''3076704000'' ''31'' ''# 1 Jul 1997'',
      leap_line ''3124137600'' ''32'' ''# 1 Jan 1999'',
      leap_line ''3345062400'' ''33'' ''# 1 Jan 2006'',
      leap_line ''3439756800'' ''34'' ''# 1 Jan 2009'',
      leap_line ''3550089600'' ''35'' ''# 1 Jul 2012'',
      leap_line ''3644697600'' ''36'' ''# 1 Jul 2015'',
      leap_line ''3692217600'' ''37'' ''# 1 Jan 2017'',
      ''#h  dac5bbc0 8e2b3b9f 7f1e8c6a''])"

definition fs_official :: "string \<Rightarrow> string option" where
  "fs_official path = (if path = ''leap-seconds.list'' then Some leap_seconds_list else None)"

text \<open>The state after \<^verbatim>\<open>init(1990, "leap-seconds.list")\<close> (lemma \<open>init_1990\<close> below).\<close>

definition sys_1990 :: sys where
  "sys_1990 =
     \<lparr>leapSecondTMs =
        [mk_tm 1990 12 31 23 59 60 0,
         mk_tm 1992 6 30 23 59 60 0,
         mk_tm 1993 6 30 23 59 60 0,
         mk_tm 1994 6 30 23 59 60 0,
         mk_tm 1995 12 31 23 59 60 0,
         mk_tm 1997 6 30 23 59 60 0,
         mk_tm 1998 12 31 23 59 60 0,
         mk_tm 2005 12 31 23 59 60 0,
         mk_tm 2008 12 31 23 59 60 0,
         mk_tm 2012 6 30 23 59 60 0,
         mk_tm 2015 6 30 23 59 60 0,
         mk_tm 2016 12 31 23 59 60 0],
      leapSecondDeltas =
        [31536000, 78796801, 110332802, 141868803, 189302404, 236563205, 283996806,
         504921607, 599616008, 709948809, 804556810, 852076811],
      epoch = mk_tm 1990 1 1 0 0 0 0,
      initialized = True, cerr = []\<rparr>"


text \<open>The state after \<^verbatim>\<open>init(10000, "leap-seconds.list")\<close> (lemma \<open>init_10000\<close> below).\<close>

definition sys_10000 :: sys where
  "sys_10000 =
     \<lparr>leapSecondTMs = [], leapSecondDeltas = [],
      epoch = mk_tm 10000 1 1 0 0 0 0,
      initialized = True, cerr = []\<rparr>"

text \<open>
  The states of the process: the static initialisers, then any number of calls of
  \<^verbatim>\<open>init\<close> and of constructors that call \<^verbatim>\<open>checkInit\<close>.
\<close>

inductive reachable :: "sys \<Rightarrow> bool" where
  reachable_initial: "reachable initial_sys"
| reachable_init: "reachable S \<Longrightarrow> init fs epochYr leapFile S = Some S' \<Longrightarrow> reachable S'"
| reachable_checkInit: "reachable S \<Longrightarrow> reachable (checkInit S)"

text \<open>The days of a common year before the first of month \<open>m\<close>.\<close>

definition cum_days :: "int \<Rightarrow> int" where
  "cum_days m = sum_list (take (nat (m - 1)) days)"

text \<open>The state after \<^verbatim>\<open>init(0, "leap-seconds.list")\<close> (lemma \<open>init_0\<close> below).\<close>

definition sys_0 :: sys where
  "sys_0 =
     \<lparr>leapSecondTMs = [], leapSecondDeltas = [],
      epoch = mk_tm 0 1 1 0 0 0 0,
      initialized = True, cerr = []\<rparr>"

section \<open>Arithmetic of leap years\<close>

lemma div_step:
  fixes y k :: int
  assumes "0 < k"
  shows "(y + 1) div k = y div k + (if (y + 1) mod k = 0 then 1 else 0)"
proof (cases "y mod k + 1 = k")
  case True
  have "y + 1 = k * (y div k) + (y mod k + 1)"
    by simp
  with True have e: "y + 1 = k * (y div k + 1) + 0"
    by (simp only: ring_distribs)
  have "(y + 1) div k = y div k + 1"
    by (rule int_div_pos_eq [OF e]) (use assms in simp_all)
  moreover have "(y + 1) mod k = 0"
    by (rule int_mod_pos_eq [OF e]) (use assms in simp_all)
  ultimately show ?thesis by simp
next
  case False
  have e: "y + 1 = k * (y div k) + (y mod k + 1)"
    by simp
  have r: "0 \<le> y mod k + 1" "y mod k + 1 < k"
    using False pos_mod_bound [OF assms, of y] pos_mod_sign [OF assms, of y] by simp_all
  have "(y + 1) div k = y div k"
    by (rule int_div_pos_eq [OF e r])
  moreover have "(y + 1) mod k = y mod k + 1"
    by (rule int_mod_pos_eq [OF e r])
  ultimately show ?thesis using r pos_mod_sign [OF assms, of y] by simp
qed

lemma mod_400_100: "(y::int) mod 400 = 0 \<Longrightarrow> y mod 100 = 0"
  using dvd_trans [of 100 400 y] by (simp add: mod_eq_0_iff_dvd)

lemma mod_100_4: "(y::int) mod 100 = 0 \<Longrightarrow> y mod 4 = 0"
  using dvd_trans [of 4 100 y] by (simp add: mod_eq_0_iff_dvd)

lemma ldb_step:
  "leap_days_before (y + 1) = leap_days_before y + (if is_leap (y + 1) then 1 else 0)"
proof -
  have d4: "(y + 1) div 4 = y div 4 + (if (y + 1) mod 4 = 0 then 1 else 0)"
    by (rule div_step) simp
  have d100: "(y + 1) div 100 = y div 100 + (if (y + 1) mod 100 = 0 then 1 else 0)"
    by (rule div_step) simp
  have d400: "(y + 1) div 400 = y div 400 + (if (y + 1) mod 400 = 0 then 1 else 0)"
    by (rule div_step) simp
  consider (a) "(y + 1) mod 400 = 0" | (b) "(y + 1) mod 400 \<noteq> 0" "(y + 1) mod 100 = 0"
    | (c) "(y + 1) mod 100 \<noteq> 0" "(y + 1) mod 4 = 0" | (d) "(y + 1) mod 4 \<noteq> 0"
    by blast
  then show ?thesis
  proof cases
    case a
    with mod_400_100 [OF a] mod_100_4 [OF mod_400_100 [OF a]] show ?thesis
      by (simp only: leap_days_before_def is_leap_def d4 d100 d400) simp
  next
    case b
    with mod_100_4 [OF b(2)] show ?thesis
      by (simp only: leap_days_before_def is_leap_def d4 d100 d400) simp
  next
    case c
    have "(y + 1) mod 400 \<noteq> 0"
    proof
      assume h: "(y + 1) mod 400 = 0"
      show False by (rule notE [OF c(1) mod_400_100 [OF h]])
    qed
    with c show ?thesis
      by (simp only: leap_days_before_def is_leap_def d4 d100 d400) simp
  next
    case d
    have e: "(y + 1) mod 100 \<noteq> 0"
    proof
      assume h: "(y + 1) mod 100 = 0"
      show False by (rule notE [OF d mod_100_4 [OF h]])
    qed
    have "(y + 1) mod 400 \<noteq> 0"
    proof
      assume h: "(y + 1) mod 400 = 0"
      show False by (rule notE [OF e mod_400_100 [OF h]])
    qed
    with d e show ?thesis
      by (simp only: leap_days_before_def is_leap_def d4 d100 d400) simp
  qed
qed

lemma ldb_mono: "a \<le> b \<Longrightarrow> leap_days_before a \<le> leap_days_before b"
proof (induction b rule: int_ge_induct)
  case base
  show ?case by simp
next
  case (step i)
  then show ?case by (simp add: ldb_step)
qed

lemma ldb_0 [simp]: "leap_days_before 0 = 0"
  by (simp add: leap_days_before_def)

lemma ldb_nonneg: "0 \<le> y \<Longrightarrow> 0 \<le> leap_days_before y"
  using ldb_mono [of 0 y] by simp

lemma ldb_le: "0 \<le> y \<Longrightarrow> leap_days_before y \<le> y"
proof (induction y rule: int_ge_induct)
  case base
  show ?case by simp
next
  case (step i)
  then show ?case by (simp add: ldb_step)
qed

lemma smod_eq_0_iff: "0 < k \<Longrightarrow> (y smod k = 0) = (y mod k = (0::int))"
  by (auto simp: signed_modulo_int_def sgn_if mod_eq_0_iff_dvd abs_if split: if_splits)

lemma isLeapYear_is_leap: "isLeapYear t = is_leap (yr t)"
  by (simp add: isLeapYear_def is_leap_def smod_eq_0_iff)

lemma sdiv_nonneg: "0 \<le> a \<Longrightarrow> 0 < b \<Longrightarrow> a sdiv b = a div (b::int)"
  by (simp add: signed_divide_int_def sgn_if)

lemma leapDaysSinceYear0_nonneg: "0 \<le> y \<Longrightarrow> leapDaysSinceYear0 y = leap_days_before y"
  by (simp add: leapDaysSinceYear0_def leap_days_before_def sdiv_nonneg)

lemma leapDaysSinceYear0_m1 [simp]: "leapDaysSinceYear0 (- 1) = 0"
  by (simp add: leapDaysSinceYear0_def signed_divide_int_def)

section \<open>The two leap-day counters\<close>

lemma word_mod_eq_0_iff:
  fixes s :: int
  assumes "0 \<le> s" "s < 2 ^ 64" "0 < k" "k < 2 ^ 64"
  shows "((word_of_int s :: 64 word) mod word_of_int k = 0) = (s mod k = 0)"
proof -
  have u: "uint (word_of_int s :: 64 word) = s" "uint (word_of_int k :: 64 word) = k"
    using assms by (simp_all add: uint_word_of_int take_bit_int_eq_self)
  have "((word_of_int s :: 64 word) mod word_of_int k = 0) =
      (uint ((word_of_int s :: 64 word) mod word_of_int k) = 0)"
    by (simp add: uint_0_iff)
  also have "\<dots> = (s mod k = 0)"
    by (simp add: uint_mod u)
  finally show ?thesis .
qed

lemma isLeapYear_yr_is_leap:
  assumes "0 \<le> s" "s < 2 ^ 64"
  shows "isLeapYear_yr (word_of_int s) = is_leap s"
  using word_mod_eq_0_iff [OF assms, of 4] word_mod_eq_0_iff [OF assms, of 400]
    word_mod_eq_0_iff [OF assms, of 100]
  by (simp add: isLeapYear_yr_def is_leap_def)

lemma sint_year:
  assumes "0 \<le> s" "s < 2 ^ 63"
  shows "sint (word_of_int s :: 64 word) = s" "sint (word_of_int s - 1 :: 64 word) = s - 1"
proof -
  show "sint (word_of_int s :: 64 word) = s"
    using assms by (simp add: sint_sbintrunc' signed_take_bit_int_eq_self)
  have e: "(word_of_int s - 1 :: 64 word) = word_of_int (s - 1)"
    by simp
  have "signed_take_bit (63::nat) (s - 1) = s - 1"
    using assms by (intro signed_take_bit_int_eq_self) simp_all
  then show "sint (word_of_int s - 1 :: 64 word) = s - 1"
    unfolding e sint_sbintrunc' by simp
qed

lemma leapDaysWalkedThroughFrom_yr_eq:
  assumes "0 \<le> s" "s < 2 ^ 63" "0 \<le> e" "e < 2 ^ 63"
  shows "leapDaysWalkedThroughFrom_yr (word_of_int s) (word_of_int e) =
           leapDaysSinceYear0 (if is_leap e then e - 1 else e) -
           leapDaysSinceYear0 (if is_leap s then s - 1 else s)"
proof -
  have s64: "s < 2 ^ 64" and e64: "e < 2 ^ 64" using assms by simp_all
  show ?thesis
    using assms
    by (simp add: leapDaysWalkedThroughFrom_yr_def Let_def sint_year
        isLeapYear_yr_is_leap [OF _ s64] isLeapYear_yr_is_leap [OF _ e64])
qed

text \<open>
  C7. For years \<open>s\<close> and \<open>e\<close> that fit the signed 64-bit range (the supported years
  0 to 9999 among them), the year-only counter subtracts 1 from a leap year before it
  applies the formula, and it returns what the counter on timestamps returns for
  January 1, 00:00:00.0 of the two years. (For a calculation year \<open>y \<ge> 0\<close> the C++
  expression \<open>leapDaysSinceYear0 y\<close> is \<open>\<lfloor>y/4\<rfloor> + \<lfloor>y/400\<rfloor> - \<lfloor>y/100\<rfloor>\<close>: lemma
  \<open>leapDaysSinceYear0_nonneg\<close>.)
\<close>

theorem leapDays_overloads_agree:
  assumes "0 \<le> s" "s < 2 ^ 63" "0 \<le> e" "e < 2 ^ 63"
  shows "leapDaysWalkedThroughFrom_yr (word_of_int s) (word_of_int e) =
           leapDaysWalkedThroughFrom_tm (mk_tm s 1 1 0 0 0 0) (mk_tm e 1 1 0 0 0 0) \<and>
         leapDaysWalkedThroughFrom_yr (word_of_int s) (word_of_int e) =
           leapDaysSinceYear0 (if is_leap e then e - 1 else e) -
           leapDaysSinceYear0 (if is_leap s then s - 1 else s)"
  using leapDaysWalkedThroughFrom_yr_eq [OF assms]
  by (simp add: leapDaysWalkedThroughFrom_tm_def calcYr_tm_def isLeapYear_is_leap mk_tm_def Let_def)

theorem leapDays_overloads_agree_witness:
  "(0::int) \<le> 1900 \<and> (1900::int) < 2 ^ 63 \<and> (0::int) \<le> 2012 \<and> (2012::int) < 2 ^ 63 \<and>
   leapDaysWalkedThroughFrom_yr (word_of_int 1900) (word_of_int 2012) =
     leapDaysWalkedThroughFrom_tm (mk_tm 1900 1 1 0 0 0 0) (mk_tm 2012 1 1 0 0 0 0) \<and>
   leapDaysWalkedThroughFrom_tm (mk_tm 1900 1 1 0 0 0 0) (mk_tm 2012 1 1 0 0 0 0) = 27"
proof -
  have h: "(0::int) \<le> 1900" "(1900::int) < 2 ^ 63" "(0::int) \<le> 2012" "(2012::int) < 2 ^ 63"
    by simp_all
  have v: "leapDaysWalkedThroughFrom_tm (mk_tm 1900 1 1 0 0 0 0) (mk_tm 2012 1 1 0 0 0 0) = 27"
    by code_simp
  show ?thesis
    using h v leapDays_overloads_agree [OF h] by simp
qed

section \<open>Counting leap seconds between two epoch offsets\<close>

lemma leapSeconds_fwd_loop_count:
  "leapSeconds_fwd_loop start end ds ret =
     ret + int (length (filter (\<lambda>d. start \<le> d \<and> d \<le> end) ds))"
  by (induction ds arbitrary: ret) auto

lemma leapSeconds_bwd_loop_count:
  "leapSeconds_bwd_loop start end ds ret =
     ret - int (length (filter (\<lambda>d. end \<le> d \<and> d \<le> start) ds))"
  by (induction ds arbitrary: ret) auto

lemma leapSecondsWalkedThroughFrom_eq:
  "leapSecondsWalkedThroughFrom S start end =
     (if end > start
      then int (length (filter (\<lambda>d. start \<le> d \<and> d \<le> end) (leapSecondDeltas S)))
      else - int (length (filter (\<lambda>d. end \<le> d \<and> d \<le> start) (leapSecondDeltas S))))"
  by (simp add: leapSecondsWalkedThroughFrom_def leapSeconds_fwd_loop_count
      leapSeconds_bwd_loop_count)

text \<open>
  C4, as the code has it. The counter returns the number of entries of the delta list in
  the closed interval from \<open>start\<close> to \<open>end\<close> when \<open>end > start\<close>, and otherwise minus the
  number of entries in the closed interval from \<open>end\<close> to \<open>start\<close>. For \<open>start = end\<close>
  this is minus the number of entries equal to \<open>start\<close>: zero only if \<open>start\<close> is not an
  entry.
\<close>

theorem leapSecondsWalkedThroughFrom_counts:
  "leapSecondsWalkedThroughFrom S start end =
     (if end > start
      then int (length (filter (\<lambda>d. start \<le> d \<and> d \<le> end) (leapSecondDeltas S)))
      else - int (length (filter (\<lambda>d. end \<le> d \<and> d \<le> start) (leapSecondDeltas S))))
   \<and> leapSecondsWalkedThroughFrom S start start =
       - int (length (filter (\<lambda>d. d = start) (leapSecondDeltas S)))"
proof -
  have "(\<lambda>d. start \<le> d \<and> d \<le> start) = (\<lambda>d. d = start)"
    by auto
  then show ?thesis
    by (simp add: leapSecondsWalkedThroughFrom_eq)
qed

text \<open>
  The claim C4 as stated (zero for every interval of length zero) fails after
  \<^verbatim>\<open>init(1990, "leap-seconds.list")\<close> at the offset of the leap second of the end of 1990.
\<close>

theorem leapSecondsWalkedThroughFrom_zero_length_counterexample:
  "leapSecondsWalkedThroughFrom sys_1990 31536000 31536000 = - 1 \<and>
   leapSecondsWalkedThroughFrom sys_1990 31536000 31536000 \<noteq> 0"
  by code_simp

section \<open>The sum computed by \<^verbatim>\<open>toEpoch\<close>\<close>

lemma greater_not_equal_iff:
  "(tm_greater t l \<and> \<not> equalsNoFrac t l) = tm_before_nofrac l t"
  by (auto simp: tm_greater_def tm_less_def equalsNoFrac_def tm_before_nofrac_def split: if_splits)

lemma leapSecondsSinceEpoch_loop_count:
  "leapSecondsSinceEpoch_loop t ls ret =
     ret + word_of_int (int (length (filter (\<lambda>l. tm_before_nofrac l t) ls)))"
  by (induction ls arbitrary: ret) (auto simp: greater_not_equal_iff)

lemma length_days [simp]: "length days = 12"
  by (simp add: days_def)

lemma toEpoch_months_eq:
  "0 \<le> i \<Longrightarrow> i \<le> 12 \<Longrightarrow>
   toEpoch_months i m acc =
     (if m - 1 \<le> 12
      then Some (acc + word_of_int (sum_list (map (\<lambda>d. d * 86400) (drop (nat i) (take (nat (m - 1)) days)))))
      else None)"
proof (induction i m acc rule: toEpoch_months.induct)
  case (1 i m acc)
  show ?case
  proof (cases "i < m - 1")
    case False
    with "1.prems" show ?thesis by (subst toEpoch_months.simps) simp
  next
    case True
    show ?thesis
    proof (cases "i < 12")
      case False
      with True "1.prems" show ?thesis
        by (subst toEpoch_months.simps) (simp add: days_at_def)
    next
      case i12: True
      with "1.prems" have da: "days_at i = Some (days ! nat i)"
        by (simp add: days_at_def)
      have "nat i < length (take (nat (m - 1)) days)"
        using True i12 "1.prems" by simp
      then have dr: "drop (nat i) (take (nat (m - 1)) days) =
          days ! nat i # drop (nat (i + 1)) (take (nat (m - 1)) days)"
        using "1.prems" by (simp add: Cons_nth_drop_Suc [symmetric] nat_add_distrib)
      from "1.IH" [OF True da] "1.prems" i12
      have "toEpoch_months (i + 1) m (acc + word_of_int (days ! nat i * 86400)) =
        (if m - 1 \<le> 12
         then Some (acc + word_of_int (days ! nat i * 86400) +
            word_of_int (sum_list (map (\<lambda>d. d * 86400) (drop (nat (i + 1)) (take (nat (m - 1)) days)))))
         else None)"
        by simp
      with True da dr show ?thesis
        by (subst toEpoch_months.simps) (simp add: algebra_simps)
    qed
  qed
qed

lemma toEpoch_eq:
  "toEpoch S t = (if mon t \<le> 13 then Some (word_of_int (toEpoch_spec S t)) else None)"
proof -
  have m: "toEpoch_months 0 (mon t) 0 =
     (if mon t \<le> 13
      then Some (word_of_int (sum_list (map (\<lambda>d. d * 86400) (take (nat (mon t - 1)) days))))
      else None)"
    using toEpoch_months_eq [of 0 "mon t" 0] by simp
  show ?thesis
  proof (cases "mon t \<le> 13")
    case False
    with m show ?thesis by (simp add: toEpoch_def)
  next
    case True
    have "word_of_int (toEpoch_spec S t) =
      (word_of_int (sum_list (map (\<lambda>d. d * 86400) (take (nat (mon t - 1)) days))) +
        (word_of_int (yr t - yr (epoch S)) * 31536000 +
         word_of_int ((day t - 1) * 86400) +
         word_of_int ((hr t - 0) * 3600) +
         word_of_int ((min_tm t - 0) * 60) +
         leapDaysWalkedThroughSinceEpoch S t * 86400 +
         leapSecondsWalkedThroughSinceEpoch S t)
        + word_of_int (sec t) - 0 :: 64 word)"
      by (simp add: toEpoch_spec_def leapSecondsWalkedThroughSinceEpoch_def
          leapDaysWalkedThroughSinceEpoch_def leapSecondsSinceEpoch_loop_count algebra_simps)
    with m True show ?thesis by (simp add: toEpoch_def)
  qed
qed



section \<open>Initialisation\<close>

lemma init_1990: "init fs_official 1990 ''leap-seconds.list'' initial_sys = Some sys_1990"
  by code_simp

lemma init_10000: "init fs_official 10000 ''leap-seconds.list'' initial_sys = Some sys_10000"
  by code_simp


lemma reachable_sys_1990: "reachable sys_1990"
  using reachable_init [OF reachable_initial init_1990] .

lemma checkInit_fields [simp]:
  "epoch (checkInit S) = epoch S" "leapSecondTMs (checkInit S) = leapSecondTMs S"
  "leapSecondDeltas (checkInit S) = leapSecondDeltas S" "initialized (checkInit S) = initialized S"
  by (simp_all add: checkInit_def)

lemma smart_tm_sinceEpoch_fst [simp]: "fst (smart_tm_sinceEpoch S n) = checkInit S"
  by (simp add: smart_tm_sinceEpoch_def Let_def)

lemma init_loop_epoch: "init_loop S d f k = Some S' \<Longrightarrow> epoch S' = epoch S"
proof (induction S d f k rule: init_loop.induct)
  case (1 S d f k)
  show ?case
  proof (cases "getNextLine f")
    case None
    with "1.prems" show ?thesis by (subst (asm) init_loop.simps) simp
  next
    case (Some p)
    obtain strLine f' where p: "p = (strLine, f')" by (cases p)
    show ?thesis
    proof (cases "parse_ull strLine > d")
      case False
      with "1.prems" Some p have "init_loop S d f' k = Some S'"
        by (subst (asm) init_loop.simps) simp
      from "1.IH"(2) [OF Some p [symmetric] refl _ this] False show ?thesis by simp
    next
      case True
      define S1 where "S1 = S\<lparr>leapSecondDeltas := leapSecondDeltas S @ [parse_ull strLine - d + k]\<rparr>"
      obtain S2 r where c: "smart_tm_sinceEpoch S1 (parse_ull strLine + k) = (S2, r)"
        by (cases "smart_tm_sinceEpoch S1 (parse_ull strLine + k)")
      then have S2: "S2 = checkInit S1"
        using smart_tm_sinceEpoch_fst [of S1 "parse_ull strLine + k"] by simp
      from "1.prems" Some p True c obtain tm where r: "r = Some tm"
        and l: "init_loop (S2\<lparr>leapSecondTMs := leapSecondTMs S2 @ [tm\<lparr>sec := sec tm + 1\<rparr>]\<rparr>) d f' (k + 1) = Some S'"
        by (subst (asm) init_loop.simps) (auto simp: Let_def S1_def split: option.splits)
      have t: "d < parse_ull strLine" using True by simp
      from "1.IH"(1) [OF Some p [symmetric] refl t S1_def c [symmetric] r l]
      show ?thesis by (simp add: S2 S1_def)
    qed
  qed
qed

lemma init_epoch:
  "init fs epochYr leapFile S = Some S' \<Longrightarrow>
     epoch S' = (if fs leapFile = None then epoch S else (epoch S)\<lparr>yr := epochYr\<rparr>)"
  by (auto simp: init_def Let_def split: option.splits dest!: init_loop_epoch)

lemma reachable_epoch: "reachable S \<Longrightarrow> \<exists>E. epoch S = mk_tm E 1 1 0 0 0 0"
proof (induction S rule: reachable.induct)
  case reachable_initial
  show ?case by (rule exI [of _ DEFAULT_EPOCH_YEAR]) (simp add: initial_sys_def)
next
  case (reachable_init S fs epochYr leapFile S')
  then obtain E where "epoch S = mk_tm E 1 1 0 0 0 0" by blast
  with init_epoch [OF reachable_init.hyps(2)] show ?case
    by (auto simp: mk_tm_def)
next
  case (reachable_checkInit S)
  then show ?case by simp
qed

text \<open>
  C8, as the code has it. If \<^verbatim>\<open>init\<close> is called with a path that cannot be opened, it
  returns after it has written one diagnostic, and the two tables, the epoch and the
  \<^verbatim>\<open>initialized\<close> flag are what they were before the call.
\<close>

theorem init_unopenable_file:
  assumes "fs leapFile = None"
  shows "\<exists>S'. init fs epochYr leapFile S = Some S' \<and>
           cerr S' = cerr S @ [''ERROR: Failed to open '' @ leapFile @ ''.''] \<and>
           leapSecondTMs S' = leapSecondTMs S \<and> leapSecondDeltas S' = leapSecondDeltas S \<and>
           epoch S' = epoch S \<and> initialized S' = initialized S"
  using assms by (simp add: init_def)

theorem init_unopenable_file_witness:
  "fs_official ''missing.list'' = None \<and>
   (\<exists>S'. init fs_official 2000 ''missing.list'' sys_1990 = Some S' \<and>
      cerr S' = cerr sys_1990 @ [''ERROR: Failed to open '' @ ''missing.list'' @ ''.''] \<and>
      leapSecondTMs S' = leapSecondTMs sys_1990 \<and>
      leapSecondDeltas S' = leapSecondDeltas sys_1990 \<and>
      epoch S' = epoch sys_1990 \<and> initialized S' = initialized sys_1990)"
proof -
  have h: "fs_official ''missing.list'' = None"
    by (simp add: fs_official_def)
  show ?thesis
    using h init_unopenable_file [where fs = fs_official and leapFile = "''missing.list''"
        and epochYr = 2000 and S = sys_1990, OF h]
    by simp
qed

text \<open>
  The claim C8 as stated (tables left empty, system still uninitialized) fails when the
  call follows a successful \<^verbatim>\<open>init\<close>: the state \<open>sys_1990\<close> is the result of
  \<^verbatim>\<open>init(1990, "leap-seconds.list")\<close>, and a failing call leaves its twelve leap seconds
  and its flag in place.
\<close>

theorem init_unopenable_file_counterexample:
  "init fs_official 1990 ''leap-seconds.list'' initial_sys = Some sys_1990 \<and>
   init fs_official 2000 ''missing.list'' sys_1990 =
     Some (sys_1990\<lparr>cerr := [''ERROR: Failed to open missing.list.'']\<rparr>) \<and>
   length (leapSecondTMs (sys_1990\<lparr>cerr := [''ERROR: Failed to open missing.list.'']\<rparr>)) = 12 \<and>
   length (leapSecondDeltas (sys_1990\<lparr>cerr := [''ERROR: Failed to open missing.list.'']\<rparr>)) = 12 \<and>
   initialized (sys_1990\<lparr>cerr := [''ERROR: Failed to open missing.list.'']\<rparr>)"
proof -
  have "init fs_official 2000 ''missing.list'' sys_1990 =
     Some (sys_1990\<lparr>cerr := [''ERROR: Failed to open missing.list.'']\<rparr>)"
    by (simp add: init_def fs_official_def sys_1990_def)
  moreover have "length (leapSecondTMs sys_1990) = 12" "length (leapSecondDeltas sys_1990) = 12"
    "initialized sys_1990"
    by (simp_all add: sys_1990_def)
  ultimately show ?thesis using init_1990 by simp
qed


text \<open>Nothing but \<^verbatim>\<open>checkInit\<close> and a failing \<^verbatim>\<open>init\<close> looks at the error stream.\<close>

lemma cerr_frame [simp]:
  "isLeapMinute (S\<lparr>cerr := c\<rparr>) t = isLeapMinute S t"
  "numSecondsOfMinute (S\<lparr>cerr := c\<rparr>) t = numSecondsOfMinute S t"
  "secInLimits (S\<lparr>cerr := c\<rparr>) t = secInLimits S t"
  "yrInLimits (S\<lparr>cerr := c\<rparr>) t = yrInLimits S t"
  "isValid (S\<lparr>cerr := c\<rparr>) t = isValid S t"
  "toEpoch (S\<lparr>cerr := c\<rparr>) t = toEpoch S t"
  "leapSecondsWalkedThroughFrom (S\<lparr>cerr := c\<rparr>) a b = leapSecondsWalkedThroughFrom S a b"
  by (simp_all add: isLeapMinute_def numSecondsOfMinute_def secInLimits_def yrInLimits_def
      isValid_def toEpoch_def leapSecondsWalkedThroughSinceEpoch_def
      leapDaysWalkedThroughSinceEpoch_def leapSecondsWalkedThroughFrom_def
      cong: option.case_cong)

lemma fixSec_fwd_cerr [simp]: "fixSec_fwd (S\<lparr>cerr := c\<rparr>) t = fixSec_fwd S t"
proof (induction S t rule: fixSec_fwd.induct)
  case (1 S t)
  show ?case
  proof (cases "sec t > 0 + numSecondsOfMinute S t - 1")
    case False
    then show ?thesis by (simp add: fixSec_fwd.simps [of S t] fixSec_fwd.simps [of "S\<lparr>cerr := c\<rparr>" t])
  next
    case True
    show ?thesis
    proof (cases "fixMin (t\<lparr>sec := sec t - numSecondsOfMinute S t, min_tm := min_tm t + 1\<rparr>)")
      case None
      with True show ?thesis
        by (simp add: fixSec_fwd.simps [of S t] fixSec_fwd.simps [of "S\<lparr>cerr := c\<rparr>" t])
    next
      case (Some t')
      from "1.IH" [OF True Some] True Some show ?thesis
        by (simp add: fixSec_fwd.simps [of S t] fixSec_fwd.simps [of "S\<lparr>cerr := c\<rparr>" t])
    qed
  qed
qed

lemma fixSec_bwd_cerr [simp]: "fixSec_bwd (S\<lparr>cerr := c\<rparr>) t = fixSec_bwd S t"
proof (induction S t rule: fixSec_bwd.induct)
  case (1 S t)
  show ?case
  proof (cases "sec t < 0")
    case False
    then show ?thesis by (simp add: fixSec_bwd.simps [of S t] fixSec_bwd.simps [of "S\<lparr>cerr := c\<rparr>" t])
  next
    case True
    show ?thesis
    proof (cases "fixMin (t\<lparr>min_tm := min_tm t - 1\<rparr>)")
      case None
      with True show ?thesis
        by (simp add: fixSec_bwd.simps [of S t] fixSec_bwd.simps [of "S\<lparr>cerr := c\<rparr>" t])
    next
      case (Some t')
      from "1.IH" [OF True Some] True Some show ?thesis
        by (simp add: fixSec_bwd.simps [of S t] fixSec_bwd.simps [of "S\<lparr>cerr := c\<rparr>" t])
    qed
  qed
qed

lemma adjust_cerr [simp]:
  "fixSec (S\<lparr>cerr := c\<rparr>) t = fixSec S t"
  "fixFracSec (S\<lparr>cerr := c\<rparr>) t = fixFracSec S t"
  "adjust (S\<lparr>cerr := c\<rparr>) t = adjust S t"
proof -
  show f: "fixSec (S\<lparr>cerr := c\<rparr>) t = fixSec S t" for t
    by (simp add: fixSec_def Let_def cong: option.case_cong)
  show g: "fixFracSec (S\<lparr>cerr := c\<rparr>) t = fixFracSec S t" for t
    by (simp add: fixFracSec_def Let_def f)
  show "adjust (S\<lparr>cerr := c\<rparr>) t = adjust S t"
    by (simp add: adjust_def f g cong: option.case_cong)
qed








lemma isValid_epoch:
  assumes "epoch S = mk_tm E 1 1 0 0 0 0"
  shows "isValid S (epoch S) \<longleftrightarrow> E \<le> 9999"
  by (simp add: assms isValid_def yrInLimits_def monInLimits_def dayInLimits_def
      numDaysOfMonth_def days_at_def days_def hrInLimits_def minInLimits_def secInLimits_def
      fracSecInLimits_def numSecondsOfMinute_def END_YR_def mk_tm_def)

lemma toEpoch_spec_epoch:
  assumes "epoch S = mk_tm E 1 1 0 0 0 0"
  shows "toEpoch_spec S (epoch S) =
           int (length (filter (\<lambda>l. tm_before_nofrac l (epoch S)) (leapSecondTMs S)))"
  by (simp add: assms toEpoch_spec_def leapDaysWalkedThroughFrom_tm_def Let_def mk_tm_def)

text \<open>
  C10, as the code has it. In every state of the process, \<^verbatim>\<open>smart_tm()\<close> is a copy of the
  epoch, which is January 1, 00:00:00.0 of the year 1900 before any successful
  \<^verbatim>\<open>init\<close> and of the year given to the last successful \<^verbatim>\<open>init\<close> afterwards (a failing
  \<^verbatim>\<open>init\<close> leaves it alone). This timestamp is valid exactly when that year is at most
  9999, and its \<^verbatim>\<open>toEpoch()\<close> is the number of recorded leap instants that lie before the
  epoch: 0 when there is none.
\<close>

theorem default_constructor_epoch:
  assumes "reachable S"
  shows "smart_tm_default S = epoch S \<and>
         smart_tm_default S = mk_tm (yr (epoch S)) 1 1 0 0 0 0 \<and>
         smart_tm_default initial_sys = mk_tm 1900 1 1 0 0 0 0 \<and>
         (\<forall>fs epochYr leapFile S'. init fs epochYr leapFile S = Some S' \<longrightarrow>
            yr (smart_tm_default S') = (if fs leapFile = None then yr (epoch S) else epochYr)) \<and>
         (isValid S (smart_tm_default S) \<longleftrightarrow> yr (epoch S) \<le> 9999) \<and>
         toEpoch S (smart_tm_default S) =
           Some (word_of_int (int (length
             (filter (\<lambda>l. tm_before_nofrac l (epoch S)) (leapSecondTMs S))))) \<and>
         ((\<forall>l\<in>set (leapSecondTMs S). \<not> tm_before_nofrac l (epoch S)) \<longrightarrow>
            toEpoch S (smart_tm_default S) = Some 0)"
proof -
  from reachable_epoch [OF assms] obtain E where E: "epoch S = mk_tm E 1 1 0 0 0 0"
    by blast
  then have y: "yr (epoch S) = E" by (simp add: mk_tm_def)
  have m: "mon (epoch S) \<le> 13" by (simp add: E mk_tm_def)
  have t: "toEpoch S (epoch S) =
           Some (word_of_int (int (length
             (filter (\<lambda>l. tm_before_nofrac l (epoch S)) (leapSecondTMs S)))))"
    using m by (simp add: toEpoch_eq toEpoch_spec_epoch [OF E])
  have z: "(\<forall>l\<in>set (leapSecondTMs S). \<not> tm_before_nofrac l (epoch S)) \<longrightarrow>
      filter (\<lambda>l. tm_before_nofrac l (epoch S)) (leapSecondTMs S) = []"
    by (simp add: filter_empty_conv)
  have i: "\<forall>fs epochYr leapFile S'. init fs epochYr leapFile S = Some S' \<longrightarrow>
            yr (smart_tm_default S') = (if fs leapFile = None then yr (epoch S) else epochYr)"
    by (auto simp: smart_tm_default_def dest!: init_epoch)
  show ?thesis
    using E y t z i isValid_epoch [OF E]
    by (auto simp: smart_tm_default_def initial_sys_def DEFAULT_EPOCH_YEAR_def)
qed

theorem default_constructor_epoch_witness:
  "reachable sys_1990 \<and>
   smart_tm_default sys_1990 = mk_tm 1990 1 1 0 0 0 0 \<and>
   isValid sys_1990 (smart_tm_default sys_1990) \<and>
   filter (\<lambda>l. tm_before_nofrac l (epoch sys_1990)) (leapSecondTMs sys_1990) = [] \<and>
   toEpoch sys_1990 (smart_tm_default sys_1990) = Some 0"
proof -
  have a: "\<forall>l\<in>set (leapSecondTMs sys_1990). \<not> tm_before_nofrac l (epoch sys_1990)"
    by (simp add: sys_1990_def mk_tm_def tm_before_nofrac_def)
  have b: "yr (epoch sys_1990) = 1990"
    by (simp add: sys_1990_def mk_tm_def)
  note d = default_constructor_epoch [OF reachable_sys_1990]
  note c2 = d [THEN conjunct2]
  note c3 = c2 [THEN conjunct2]
  note c4 = c3 [THEN conjunct2]
  note c5 = c4 [THEN conjunct2]
  note c6 = c5 [THEN conjunct2]
  have d1: "smart_tm_default sys_1990 = mk_tm 1990 1 1 0 0 0 0"
    using c2 [THEN conjunct1] b by simp
  have d2: "isValid sys_1990 (smart_tm_default sys_1990)"
    using c5 [THEN conjunct1] b by simp
  have d3: "toEpoch sys_1990 (smart_tm_default sys_1990) = Some 0"
    using c6 [THEN conjunct2] a by blast
  from a have a': "filter (\<lambda>l. tm_before_nofrac l (epoch sys_1990)) (leapSecondTMs sys_1990) = []"
    by (simp only: filter_empty_conv)
  from reachable_sys_1990 d1 d2 a' d3 show ?thesis
    by (intro conjI)
qed

text \<open>
  The claim C10 as stated (the default timestamp is always valid) fails after
  \<^verbatim>\<open>init(10000, "leap-seconds.list")\<close>: the epoch year is then above \<^verbatim>\<open>END_YR\<close>.
\<close>

theorem default_constructor_counterexample:
  "init fs_official 10000 ''leap-seconds.list'' initial_sys = Some sys_10000 \<and>
   smart_tm_default sys_10000 = mk_tm 10000 1 1 0 0 0 0 \<and>
   \<not> isValid sys_10000 (smart_tm_default sys_10000)"
proof -
  have "\<not> isValid sys_10000 (smart_tm_default sys_10000)"
    by (simp add: isValid_def yrInLimits_def smart_tm_default_def sys_10000_def END_YR_def mk_tm_def)
  then show ?thesis
    using init_10000 by (simp add: smart_tm_default_def sys_10000_def)
qed

section \<open>Bounds on the seconds since the epoch, and the difference of two timestamps\<close>

lemma sum_list_times: "sum_list (map (\<lambda>d. d * k) xs) = sum_list xs * (k::int)"
  by (induction xs) (simp_all add: algebra_simps)

lemma monInLimits_cases:
  "monInLimits t \<Longrightarrow>
     mon t = 1 \<or> mon t = 2 \<or> mon t = 3 \<or> mon t = 4 \<or> mon t = 5 \<or> mon t = 6 \<or>
     mon t = 7 \<or> mon t = 8 \<or> mon t = 9 \<or> mon t = 10 \<or> mon t = 11 \<or> mon t = 12"
  unfolding monInLimits_def by arith

lemma cum_days_simps [simp]:
  "cum_days 1 = 0" "cum_days 2 = 31" "cum_days 3 = 59" "cum_days 4 = 90" "cum_days 5 = 120"
  "cum_days 6 = 151" "cum_days 7 = 181" "cum_days 8 = 212" "cum_days 9 = 243"
  "cum_days 10 = 273" "cum_days 11 = 304" "cum_days 12 = 334" "cum_days 13 = 365"
  by (simp_all add: cum_days_def days_def)

lemma cum_days_bounds: "monInLimits t \<Longrightarrow> 0 \<le> cum_days (mon t) \<and> cum_days (mon t) \<le> 334"
  by (drule monInLimits_cases) auto

lemma leapDaysSinceYear0_mono:
  assumes "- 1 \<le> a" "a \<le> b"
  shows "leapDaysSinceYear0 a \<le> leapDaysSinceYear0 b"
proof (cases "a = - 1")
  case True
  show ?thesis
  proof (cases "b = - 1")
    case True
    with \<open>a = - 1\<close> show ?thesis by simp
  next
    case False
    with assms True have "0 \<le> b" by simp
    with True show ?thesis by (simp add: leapDaysSinceYear0_nonneg ldb_nonneg)
  qed
next
  case False
  with assms have "0 \<le> a" "0 \<le> b" by simp_all
  with assms(2) show ?thesis by (simp add: leapDaysSinceYear0_nonneg ldb_mono)
qed

lemma leapDaysSinceYear0_bounds:
  assumes "- 1 \<le> y"
  shows "0 \<le> leapDaysSinceYear0 y" "leapDaysSinceYear0 y \<le> y + 1"
proof -
  show "0 \<le> leapDaysSinceYear0 y"
    using leapDaysSinceYear0_mono [of "- 1" y] assms by simp
  show "leapDaysSinceYear0 y \<le> y + 1"
  proof (cases "y = - 1")
    case True
    then show ?thesis by simp
  next
    case False
    with assms have "0 \<le> y" by simp
    then show ?thesis using ldb_le [of y] by (simp add: leapDaysSinceYear0_nonneg)
  qed
qed

lemma calcYr_tm_range: "yr t - 1 \<le> calcYr_tm t \<and> calcYr_tm t \<le> yr t"
  by (simp add: calcYr_tm_def)

lemma dayInLimits_SomeD:
  "dayInLimits t = Some True \<Longrightarrow> 1 \<le> day t \<and> day t \<le> 31 \<and>
     (\<exists>n. numDaysOfMonth t = Some n \<and> day t \<le> n)"
  by (auto simp: dayInLimits_def split: if_splits option.splits dest: numDaysOfMonth_ge)

lemma length_filter_int_le: "int (length (filter P xs)) \<le> int (length xs)"
  by simp

lemma toEpoch_spec_bounds:
  assumes v: "isValid S t"
    and e: "epoch S = mk_tm E 1 1 0 0 0 0" "0 \<le> E"
    and n: "length (leapSecondTMs S) < 2 ^ 32"
  shows "0 \<le> toEpoch_spec S t" "toEpoch_spec S t < 2 ^ 62" "toEpoch_spec S t < 2 ^ 39"
proof -
  from v have y: "E \<le> yr t" "yr t \<le> 9999"
    and m: "monInLimits t" and d: "dayInLimits t = Some True"
    and h: "0 \<le> hr t" "hr t \<le> 23" and mi: "0 \<le> min_tm t" "min_tm t \<le> 59"
    and s: "0 \<le> sec t" "sec t \<le> 60"
    using numSecondsOfMinute_ge [of S t]
    by (simp_all add: isValid_def yrInLimits_def hrInLimits_def minInLimits_def secInLimits_def
        e mk_tm_def END_YR_def)
  from dayInLimits_SomeD [OF d] have dd: "1 \<le> day t" "day t \<le> 31" by simp_all
  note cb = cum_days_bounds [OF m]
  have ce: "calcYr_tm (epoch S) = (if is_leap E then E - 1 else E)"
    by (simp add: calcYr_tm_def e mk_tm_def isLeapYear_is_leap)
  have ct: "calcYr_tm (epoch S) \<le> calcYr_tm t"
  proof (cases "yr t = E")
    case True
    then have "calcYr_tm t =
        (if is_leap E \<and> ((mon t - 1 = 1 \<and> day t \<le> 29) \<or> mon t - 1 = 0) then E - 1 else E)"
      by (simp add: calcYr_tm_def isLeapYear_is_leap)
    then show ?thesis unfolding ce by simp
  next
    case False
    with y have "E \<le> yr t - 1" by simp
    with calcYr_tm_range [of t] show ?thesis by (simp add: ce)
  qed
  have c1: "- 1 \<le> calcYr_tm (epoch S)" using e(2) by (simp add: ce)
  have l0: "0 \<le> leapDaysWalkedThroughFrom_tm (epoch S) t"
    using leapDaysSinceYear0_mono [OF c1 ct] by (simp add: leapDaysWalkedThroughFrom_tm_def)
  have "leapDaysSinceYear0 (calcYr_tm t) \<le> calcYr_tm t + 1"
    using c1 ct by (intro leapDaysSinceYear0_bounds) simp
  moreover have "0 \<le> leapDaysSinceYear0 (calcYr_tm (epoch S))"
    using c1 by (intro leapDaysSinceYear0_bounds)
  ultimately have l1: "leapDaysWalkedThroughFrom_tm (epoch S) t \<le> 10000"
    using calcYr_tm_range [of t] y by (simp add: leapDaysWalkedThroughFrom_tm_def)
  have "length (filter (\<lambda>l. tm_before_nofrac l t) (leapSecondTMs S)) \<le> length (leapSecondTMs S)"
    by (rule length_filter_le)
  from this n have "length (filter (\<lambda>l. tm_before_nofrac l t) (leapSecondTMs S)) < 2 ^ 32"
    by (rule order_le_less_trans)
  then have "int (length (filter (\<lambda>l. tm_before_nofrac l t) (leapSecondTMs S))) < int (2 ^ 32)"
    by (simp only: of_nat_less_iff)
  then have f: "int (length (filter (\<lambda>l. tm_before_nofrac l t) (leapSecondTMs S))) < 2 ^ 32"
    by simp
  have ye: "0 \<le> yr t - E" "yr t - E \<le> 9999" using y e(2) by simp_all
  have sp: "toEpoch_spec S t =
      cum_days (mon t) * 86400 + (yr t - E) * 31536000 +
      ((day t - 1) * 86400 + hr t * 3600 + min_tm t * 60) +
      86400 * leapDaysWalkedThroughFrom_tm (epoch S) t +
      int (length (filter (\<lambda>l. tm_before_nofrac l t) (leapSecondTMs S))) + sec t"
    by (simp add: toEpoch_spec_def sum_list_times cum_days_def e mk_tm_def)
  show "0 \<le> toEpoch_spec S t"
    unfolding sp using cb ye dd h mi s l0 by simp
  show "toEpoch_spec S t < 2 ^ 62"
    unfolding sp using cb ye dd h mi s l1 f by simp
  show "toEpoch_spec S t < 2 ^ 39"
    unfolding sp using cb ye dd h mi s l1 f by simp
qed

lemma isValid_mon: "isValid S t \<Longrightarrow> mon t \<le> 13"
  by (simp add: isValid_def monInLimits_def)

lemma tm_diff_eq:
  assumes "isValid S lhs" "isValid S rhs"
    and e: "epoch S = mk_tm E 1 1 0 0 0 0" "0 \<le> E"
    and n: "length (leapSecondTMs S) < 2 ^ 32"
  shows "toEpoch S lhs = Some (word_of_int (toEpoch_spec S lhs))"
    and "toEpoch S rhs = Some (word_of_int (toEpoch_spec S rhs))"
    and "uint (word_of_int (toEpoch_spec S lhs) :: 64 word) = toEpoch_spec S lhs"
    and "uint (word_of_int (toEpoch_spec S rhs) :: 64 word) = toEpoch_spec S rhs"
    and "sint (word_of_int (toEpoch_spec S lhs) - word_of_int (toEpoch_spec S rhs) :: 64 word) =
           toEpoch_spec S lhs - toEpoch_spec S rhs"
    and "tm_diff S lhs rhs =
           Some (dbl_add (real_of_int (toEpoch_spec S lhs - toEpoch_spec S rhs))
                   (dbl_sub (fracSec lhs) (fracSec rhs)))"
proof -
  note bl = toEpoch_spec_bounds [OF assms(1) e n]
  note br = toEpoch_spec_bounds [OF assms(2) e n]
  show l: "toEpoch S lhs = Some (word_of_int (toEpoch_spec S lhs))"
    using isValid_mon [OF assms(1)] by (simp add: toEpoch_eq)
  show r: "toEpoch S rhs = Some (word_of_int (toEpoch_spec S rhs))"
    using isValid_mon [OF assms(2)] by (simp add: toEpoch_eq)
  have p62: "(2::int) ^ 62 < 2 ^ 64" by simp
  show "uint (word_of_int (toEpoch_spec S lhs) :: 64 word) = toEpoch_spec S lhs"
    using bl(1,2) p62 by (simp add: uint_word_of_int take_bit_int_eq_self)
  show "uint (word_of_int (toEpoch_spec S rhs) :: 64 word) = toEpoch_spec S rhs"
    using br(1,2) p62 by (simp add: uint_word_of_int take_bit_int_eq_self)
  have "(word_of_int (toEpoch_spec S lhs) - word_of_int (toEpoch_spec S rhs) :: 64 word) =
      word_of_int (toEpoch_spec S lhs - toEpoch_spec S rhs)"
    by simp
  moreover have "signed_take_bit (63::nat) (toEpoch_spec S lhs - toEpoch_spec S rhs) =
      toEpoch_spec S lhs - toEpoch_spec S rhs"
    using bl(1,2) br(1,2) by (intro signed_take_bit_int_eq_self) simp_all
  ultimately show si: "sint (word_of_int (toEpoch_spec S lhs) - word_of_int (toEpoch_spec S rhs) :: 64 word) =
      toEpoch_spec S lhs - toEpoch_spec S rhs"
    by (simp only: sint_sbintrunc') simp
  have "\<bar>toEpoch_spec S lhs - toEpoch_spec S rhs\<bar> < 2 ^ 53"
    using bl(1,3) br(1,3) by (simp add: abs_if split: if_splits)
  then have "dbl_of_int (toEpoch_spec S lhs - toEpoch_spec S rhs) =
      real_of_int (toEpoch_spec S lhs - toEpoch_spec S rhs)"
    by (rule dbl_of_int_exact)
  then show "tm_diff S lhs rhs =
      Some (dbl_add (real_of_int (toEpoch_spec S lhs - toEpoch_spec S rhs))
              (dbl_sub (fracSec lhs) (fracSec rhs)))"
    by (simp only: tm_diff_def l r Let_def option.case si)
qed

lemma tm_diff_error:
  fixes d :: int and lf rf :: real
  assumes d: "\<bar>d\<bar> < 2 ^ 39" and l: "0 \<le> lf" "lf < 1" and r: "0 \<le> rf" "rf < 1"
  shows "\<bar>dbl_add (of_int d) (dbl_sub lf rf) - (of_int d + (lf - rf))\<bar> \<le> 1 / 2 ^ 12"
proof -
  define f where "f = rd (lf - rf)"
  have "\<bar>lf - rf\<bar> \<le> 2 ^ 0" using l r by (simp add: abs_if)
  from rd_err_bound [OF this] have ef: "\<bar>f - (lf - rf)\<bar> \<le> 1 / 2 ^ 53"
    by (simp add: f_def)
  have "real_of_int \<bar>d\<bar> < real_of_int (2 ^ 39)"
    using d by (simp only: of_int_less_iff)
  then have dr: "\<bar>real_of_int d\<bar> < 2 ^ 39" by simp
  have "\<bar>f\<bar> \<le> 2" using ef l r by (simp add: abs_if split: if_splits)
  with dr have "\<bar>of_int d + f\<bar> \<le> 2 ^ 40" by (simp add: abs_if split: if_splits)
  from rd_err_bound [OF this] have es: "\<bar>rd (of_int d + f) - (of_int d + f)\<bar> \<le> 1 / 2 ^ 13"
    by simp
  have "\<bar>rd (of_int d + f) - (of_int d + (lf - rf))\<bar> \<le> 1 / 2 ^ 13 + 1 / 2 ^ 53"
    using es ef by (simp add: abs_if split: if_splits)
  also have "\<dots> \<le> 1 / 2 ^ 12" by simp
  finally show ?thesis by (simp add: dbl_add_def dbl_sub_def f_def)
qed

text \<open>
  C9, as the code has it. In a state of the process that is initialized, with an epoch
  year of at least 0 and fewer than \<open>2^32\<close> recorded leap seconds, for valid timestamps
  \<open>lhs\<close> and \<open>rhs\<close>: \<^verbatim>\<open>toEpoch\<close> returns for both; the difference of the two
  \<^verbatim>\<open>size_t\<close> modulo \<open>2^64\<close>, read as a signed integer, is the integer difference
  \<open>toEpoch(lhs) - toEpoch(rhs)\<close>, negative when \<open>rhs\<close> is later, and converts to
  \<^verbatim>\<open>double\<close> exactly; \<^verbatim>\<open>lhs - rhs\<close> is the double sum of it and of the double difference
  \<open>lhs.fracSec - rhs.fracSec\<close>, so the fractional seconds are combined after the
  conversion. Both operations round: the result is within \<open>2 ^ - 12\<close> of the real number
  \<open>(toEpoch(lhs) + lhs.fracSec) - (toEpoch(rhs) + rhs.fracSec)\<close>, and need not be it.
\<close>

theorem tm_diff_value:
  assumes "reachable S" "initialized S" "0 \<le> yr (epoch S)"
    and "length (leapSecondTMs S) < 2 ^ 32"
    and "isValid S lhs" "isValid S rhs"
  shows "\<exists>l r v. toEpoch S lhs = Some l \<and> toEpoch S rhs = Some r \<and>
           tm_diff S lhs rhs = Some v \<and>
           sint (l - r) = uint l - uint r \<and>
           dbl_of_int (sint (l - r)) = real_of_int (uint l - uint r) \<and>
           v = dbl_add (real_of_int (uint l - uint r)) (dbl_sub (fracSec lhs) (fracSec rhs)) \<and>
           \<bar>v - ((real_of_int (uint l) + fracSec lhs) - (real_of_int (uint r) + fracSec rhs))\<bar>
             \<le> 1 / 2 ^ 12"
proof -
  from reachable_epoch [OF assms(1)] obtain E where E: "epoch S = mk_tm E 1 1 0 0 0 0"
    by blast
  with assms(3) have E0: "0 \<le> E" by (simp add: mk_tm_def)
  note d = tm_diff_eq [OF assms(5,6) E E0 assms(4)]
  note bl = toEpoch_spec_bounds [OF assms(5) E E0 assms(4)]
  note br = toEpoch_spec_bounds [OF assms(6) E E0 assms(4)]
  define a where "a = toEpoch_spec S lhs"
  define b where "b = toEpoch_spec S rhs"
  have ab: "\<bar>a - b\<bar> < 2 ^ 39"
    using bl(1,3) br(1,3) by (simp add: a_def b_def abs_if split: if_splits)
  then have ab': "\<bar>a - b\<bar> < 2 ^ 53" by simp
  have fl: "0 \<le> fracSec lhs" "fracSec lhs < 1" and fr: "0 \<le> fracSec rhs" "fracSec rhs < 1"
    using assms(5,6) by (simp_all add: isValid_def fracSecInLimits_def)
  have "\<bar>dbl_add (of_int (a - b)) (dbl_sub (fracSec lhs) (fracSec rhs)) -
      (of_int (a - b) + (fracSec lhs - fracSec rhs))\<bar> \<le> 1 / 2 ^ 12"
    using ab fl fr by (rule tm_diff_error)
  then have er: "\<bar>dbl_add (of_int (a - b)) (dbl_sub (fracSec lhs) (fracSec rhs)) -
      ((real_of_int a + fracSec lhs) - (real_of_int b + fracSec rhs))\<bar> \<le> 1 / 2 ^ 12"
    by (simp add: algebra_simps)
  show ?thesis
  proof (intro exI conjI)
    show "toEpoch S lhs = Some (word_of_int a)" unfolding a_def by (rule d(1))
    show "toEpoch S rhs = Some (word_of_int b)" unfolding b_def by (rule d(2))
    show "tm_diff S lhs rhs =
        Some (dbl_add (of_int (a - b)) (dbl_sub (fracSec lhs) (fracSec rhs)))"
      unfolding a_def b_def by (rule d(6))
    show "sint (word_of_int a - word_of_int b :: 64 word) =
        uint (word_of_int a :: 64 word) - uint (word_of_int b :: 64 word)"
      unfolding a_def b_def d(3,4) by (rule d(5))
    show "dbl_of_int (sint (word_of_int a - word_of_int b :: 64 word)) =
        real_of_int (uint (word_of_int a :: 64 word) - uint (word_of_int b :: 64 word))"
      unfolding a_def b_def d(3,4,5) using ab' unfolding a_def b_def by (rule dbl_of_int_exact)
    show "dbl_add (of_int (a - b)) (dbl_sub (fracSec lhs) (fracSec rhs)) =
        dbl_add (real_of_int (uint (word_of_int a :: 64 word) - uint (word_of_int b :: 64 word)))
          (dbl_sub (fracSec lhs) (fracSec rhs))"
      unfolding a_def b_def d(3,4) ..
    show "\<bar>dbl_add (of_int (a - b)) (dbl_sub (fracSec lhs) (fracSec rhs)) -
        ((real_of_int (uint (word_of_int a :: 64 word)) + fracSec lhs) -
         (real_of_int (uint (word_of_int b :: 64 word)) + fracSec rhs))\<bar> \<le> 1 / 2 ^ 12"
      using er unfolding a_def b_def d(3,4) .
  qed
qed

theorem tm_diff_value_witness:
  "reachable sys_1990 \<and> initialized sys_1990 \<and> 0 \<le> yr (epoch sys_1990) \<and>
   length (leapSecondTMs sys_1990) < 2 ^ 32 \<and>
   isValid sys_1990 (mk_tm 2012 6 30 23 59 60 (1 / 4)) \<and>
   isValid sys_1990 (mk_tm 2012 7 1 0 0 0 (3 / 4)) \<and>
   toEpoch sys_1990 (mk_tm 2012 6 30 23 59 60 (1 / 4)) = Some 709948809 \<and>
   toEpoch sys_1990 (mk_tm 2012 7 1 0 0 0 (3 / 4)) = Some 709948810 \<and>
   tm_diff sys_1990 (mk_tm 2012 6 30 23 59 60 (1 / 4)) (mk_tm 2012 7 1 0 0 0 (3 / 4)) =
     Some (- (3 / 2))"
proof -
  have a: "initialized sys_1990" "0 \<le> yr (epoch sys_1990)"
    "length (leapSecondTMs sys_1990) < 2 ^ 32"
    by (simp_all add: sys_1990_def mk_tm_def)
  have v1: "isValid sys_1990 (mk_tm 2012 6 30 23 59 60 (1 / 4))"
    by (simp add: isValid_def yrInLimits_def monInLimits_def dayInLimits_def numDaysOfMonth_def
        days_at_def days_def hrInLimits_def minInLimits_def secInLimits_def fracSecInLimits_def
        numSecondsOfMinute_def isLeapMinute_def END_YR_def mk_tm_def sys_1990_def)
  have v2: "isValid sys_1990 (mk_tm 2012 7 1 0 0 0 (3 / 4))"
    by (simp add: isValid_def yrInLimits_def monInLimits_def dayInLimits_def numDaysOfMonth_def
        days_at_def days_def hrInLimits_def minInLimits_def secInLimits_def fracSecInLimits_def
        numSecondsOfMinute_def isLeapMinute_def END_YR_def mk_tm_def sys_1990_def)
  have e1: "toEpoch sys_1990 (mk_tm 2012 6 30 23 59 60 (1 / 4)) = Some 709948809"
    by code_simp
  have e2: "toEpoch sys_1990 (mk_tm 2012 7 1 0 0 0 (3 / 4)) = Some 709948810"
    by code_simp
  have r1: "rd (- (1 / 2)) = - (1 / 2)" using rd_dyadic [of "- 1" 1] by simp
  have r2: "rd (- (3 / 2)) = - (3 / 2)" using rd_dyadic [of "- 3" 1] by simp
  have "dbl_add (real_of_int (709948809 - 709948810)) (dbl_sub (1 / 4) (3 / 4)) = - (3 / 2)"
    by (simp add: dbl_add_def dbl_sub_def r1 r2)
  with tm_diff_value [OF reachable_sys_1990 a v1 v2]
  have "tm_diff sys_1990 (mk_tm 2012 6 30 23 59 60 (1 / 4)) (mk_tm 2012 7 1 0 0 0 (3 / 4)) =
     Some (- (3 / 2))"
    by (auto simp: e1 e2) (simp add: mk_tm_def)
  with reachable_sys_1990 a v1 v2 e1 e2 show ?thesis by (intro conjI)
qed

text \<open>
  C9 fails as stated, for the real number: in the state after
  \<^verbatim>\<open>init(1990, "leap-seconds.list")\<close>, for the valid timestamps
  (2012, 7, 1, 0, 0, 0, \<open>2 ^ - 40\<close>) and (1990, 1, 1, 0, 0, 0, 0.0), with \<^verbatim>\<open>toEpoch\<close>
  709948810 and 0, the difference is the double 709948810.0, since the sum
  \<open>709948810 + 2 ^ - 40\<close> rounds, and not the real number \<open>709948810 + 2 ^ - 40\<close>.
\<close>

theorem tm_diff_rounds_counterexample:
  "isValid sys_1990 (mk_tm 2012 7 1 0 0 0 (1 / 2 ^ 40)) \<and>
   isValid sys_1990 (mk_tm 1990 1 1 0 0 0 0) \<and>
   toEpoch sys_1990 (mk_tm 2012 7 1 0 0 0 (1 / 2 ^ 40)) = Some 709948810 \<and>
   toEpoch sys_1990 (mk_tm 1990 1 1 0 0 0 0) = Some 0 \<and>
   tm_diff sys_1990 (mk_tm 2012 7 1 0 0 0 (1 / 2 ^ 40)) (mk_tm 1990 1 1 0 0 0 0) =
     Some 709948810 \<and>
   (709948810 + 1 / 2 ^ 40) - (0 + 0) \<noteq> (709948810 :: real)"
proof -
  have v1: "isValid sys_1990 (mk_tm 2012 7 1 0 0 0 (1 / 2 ^ 40))"
    by (simp add: isValid_def yrInLimits_def monInLimits_def dayInLimits_def numDaysOfMonth_def
        days_at_def days_def hrInLimits_def minInLimits_def secInLimits_def fracSecInLimits_def
        numSecondsOfMinute_def isLeapMinute_def END_YR_def mk_tm_def sys_1990_def)
  have v2: "isValid sys_1990 (mk_tm 1990 1 1 0 0 0 0)"
    by (simp add: isValid_def yrInLimits_def monInLimits_def dayInLimits_def numDaysOfMonth_def
        days_at_def days_def hrInLimits_def minInLimits_def secInLimits_def fracSecInLimits_def
        numSecondsOfMinute_def isLeapMinute_def END_YR_def mk_tm_def sys_1990_def)
  have e1: "toEpoch sys_1990 (mk_tm 2012 7 1 0 0 0 (1 / 2 ^ 40)) = Some 709948810"
    by code_simp
  have e2: "toEpoch sys_1990 (mk_tm 1990 1 1 0 0 0 0) = Some 0"
    by code_simp
  have f1: "fracSec (mk_tm 2012 7 1 0 0 0 (1 / 2 ^ 40)) = 1 / 2 ^ 40"
    "fracSec (mk_tm 1990 1 1 0 0 0 0) = 0"
    by (simp_all add: mk_tm_def)
  have "sint (709948810 - 0 :: 64 word) = 709948810" by simp
  moreover have "dbl_of_int 709948810 = 709948810"
    using dbl_of_int_exact [of 709948810] by simp
  moreover have "dbl_sub (1 / 2 ^ 40) 0 = 1 / 2 ^ 40"
    unfolding dbl_sub_def by (simp only: diff_zero rd_pow2)
  moreover have "dbl_add 709948810 (1 / 2 ^ 40) = 709948810"
    unfolding dbl_add_def by (rule rd_small_frac)
  ultimately have "tm_diff sys_1990 (mk_tm 2012 7 1 0 0 0 (1 / 2 ^ 40)) (mk_tm 1990 1 1 0 0 0 0) =
      Some 709948810"
    by (simp only: tm_diff_def e1 e2 f1 Let_def option.case)
  moreover have "(709948810 + 1 / 2 ^ 40) - (0 + 0) \<noteq> (709948810 :: real)" by simp
  ultimately show ?thesis using v1 v2 e1 e2 by (intro conjI)
qed

section \<open>Normalisation returns a well-formed timestamp\<close>

text \<open>
  The carries are exact as long as the field converts to \<^verbatim>\<open>double\<close> exactly, which it
  does below \<open>2 ^ 53\<close>.
\<close>

lemma fixMon_monInLimits:
  assumes "\<bar>mon t - 1\<bar> < 2 ^ 53"
  shows "monInLimits (fixMon t)"
proof (cases "monInLimits t")
  case True
  then show ?thesis by (simp add: fixMon_def)
next
  case False
  have q: "quot_floor (mon t - 1) 12 = (mon t - 1) div 12"
    using assms by (intro quot_floor_exact) simp_all
  have "0 \<le> (mon t - 1) mod 12" "(mon t - 1) mod 12 < 12" by simp_all
  moreover have "mon t - (mon t - 1) div 12 * 12 = (mon t - 1) mod 12 + 1"
    by (simp add: minus_div_mult_eq_mod [symmetric] algebra_simps)
  ultimately show ?thesis using False
    by (simp add: fixMon_def Let_def monInLimits_def q)
qed

lemma fixMon_next [simp]:
  "monInLimits t \<Longrightarrow> monInLimits (fixMon (t\<lparr>day := d, mon := mon t + 1\<rparr>))"
  by (rule fixMon_monInLimits) (simp add: monInLimits_def abs_if)

lemma fixMon_prev [simp]:
  "monInLimits t \<Longrightarrow> monInLimits (fixMon (t\<lparr>mon := mon t - 1\<rparr>))"
  by (rule fixMon_monInLimits) (simp add: monInLimits_def abs_if)

lemma monInLimits_days_at: "monInLimits t \<Longrightarrow> \<exists>n. days_at (mon t - 1) = Some n"
  by (simp add: monInLimits_def days_at_def)

lemma monInLimits_numDaysOfMonth: "monInLimits t \<Longrightarrow> \<exists>n. numDaysOfMonth t = Some n"
  by (auto simp: numDaysOfMonth_def dest: monInLimits_days_at)

lemma monInLimits_upd [simp]:
  "monInLimits (t\<lparr>day := d\<rparr>) = monInLimits t"
  "monInLimits (t\<lparr>hr := h\<rparr>) = monInLimits t"
  "monInLimits (t\<lparr>min_tm := m\<rparr>) = monInLimits t"
  "monInLimits (t\<lparr>sec := s\<rparr>) = monInLimits t"
  "monInLimits (t\<lparr>fracSec := f\<rparr>) = monInLimits t"
  by (simp_all add: monInLimits_def)

text \<open>The loops over the months return, with a month in 1..12, when they start with one.\<close>

lemma stepMonNoLeap_fwd_total:
  "monInLimits t \<Longrightarrow> \<exists>t'. stepMonNoLeap_fwd t = Some t' \<and> monInLimits t'"
proof (induction t rule: stepMonNoLeap_fwd.induct)
  case (1 t)
  from monInLimits_days_at [OF "1.prems"] obtain n where n: "days_at (mon t - 1) = Some n"
    by blast
  show ?case
  proof (cases "day t > 1 + n - 1")
    case True
    from "1.IH" [OF n True] "1.prems" obtain t' where
      "stepMonNoLeap_fwd (fixMon (t\<lparr>day := day t - n, mon := mon t + 1\<rparr>)) = Some t'" "monInLimits t'"
      by auto
    with n True show ?thesis by (subst stepMonNoLeap_fwd.simps) simp
  next
    case False
    with n "1.prems" show ?thesis by (subst stepMonNoLeap_fwd.simps) simp
  qed
qed

lemma stepMonNoLeap_bwd_total:
  "monInLimits t \<Longrightarrow> \<exists>t'. stepMonNoLeap_bwd t = Some t' \<and> monInLimits t'"
proof (induction t rule: stepMonNoLeap_bwd.induct)
  case (1 t)
  show ?case
  proof (cases "day t < 1")
    case False
    with "1.prems" show ?thesis by (subst stepMonNoLeap_bwd.simps) simp
  next
    case True
    define t1 where "t1 = fixMon (t\<lparr>mon := mon t - 1\<rparr>)"
    have m1: "monInLimits t1" using "1.prems"(1) by (simp add: t1_def)
    from monInLimits_days_at [OF m1] obtain n where n: "days_at (mon t1 - 1) = Some n"
      by blast
    from "1.IH" [OF True t1_def n] m1 obtain t' where
      "stepMonNoLeap_bwd (t1\<lparr>day := day t1 + n\<rparr>) = Some t'" "monInLimits t'"
      by auto
    with n True show ?thesis
      by (subst stepMonNoLeap_bwd.simps) (simp add: Let_def t1_def [symmetric])
  qed
qed

lemma stepMon_fwd_total:
  "monInLimits t \<Longrightarrow>
     \<exists>t' n. stepMon_fwd t = Some t' \<and> monInLimits t' \<and> numDaysOfMonth t' = Some n \<and> day t' \<le> n"
proof (induction t rule: stepMon_fwd.induct)
  case (1 t)
  from monInLimits_numDaysOfMonth [OF "1.prems"] obtain n where n: "numDaysOfMonth t = Some n"
    by blast
  show ?case
  proof (cases "day t > 1 + n - 1")
    case True
    from "1.IH" [OF n True] "1.prems" obtain t' n' where
      "stepMon_fwd (fixMon (t\<lparr>day := day t - n, mon := mon t + 1\<rparr>)) = Some t'" "monInLimits t'"
      "numDaysOfMonth t' = Some n'" "day t' \<le> n'"
      by auto
    with n True show ?thesis by (subst stepMon_fwd.simps) simp
  next
    case False
    with n "1.prems" show ?thesis by (subst stepMon_fwd.simps) simp
  qed
qed

lemma isLeapYear_upd [simp]:
  "isLeapYear (t\<lparr>day := d\<rparr>) = isLeapYear t"
  "isLeapYear (t\<lparr>mon := mo\<rparr>) = isLeapYear t"
  "isLeapYear (t\<lparr>hr := h\<rparr>) = isLeapYear t"
  "isLeapYear (t\<lparr>min_tm := m\<rparr>) = isLeapYear t"
  "isLeapYear (t\<lparr>sec := s\<rparr>) = isLeapYear t"
  "isLeapYear (t\<lparr>fracSec := f\<rparr>) = isLeapYear t"
  by (simp_all add: isLeapYear_def)

lemma numDaysOfMonth_upd [simp]:
  "numDaysOfMonth (t\<lparr>day := d\<rparr>) = numDaysOfMonth t"
  "numDaysOfMonth (t\<lparr>hr := h\<rparr>) = numDaysOfMonth t"
  "numDaysOfMonth (t\<lparr>min_tm := m\<rparr>) = numDaysOfMonth t"
  "numDaysOfMonth (t\<lparr>sec := s\<rparr>) = numDaysOfMonth t"
  "numDaysOfMonth (t\<lparr>fracSec := f\<rparr>) = numDaysOfMonth t"
  by (simp_all add: numDaysOfMonth_def)

lemma dayInLimits_upd [simp]:
  "dayInLimits (t\<lparr>hr := h\<rparr>) = dayInLimits t"
  "dayInLimits (t\<lparr>min_tm := m\<rparr>) = dayInLimits t"
  "dayInLimits (t\<lparr>sec := s\<rparr>) = dayInLimits t"
  "dayInLimits (t\<lparr>fracSec := f\<rparr>) = dayInLimits t"
  by (simp_all add: dayInLimits_def split: option.splits)

lemma stepMon_bwd_total:
  "monInLimits t \<Longrightarrow> numDaysOfMonth t = Some n \<Longrightarrow> day t \<le> n \<Longrightarrow>
     \<exists>t'. stepMon_bwd t = Some t' \<and> monInLimits t' \<and> dayInLimits t' = Some True"
proof (induction t arbitrary: n rule: stepMon_bwd.induct)
  case (1 t)
  show ?case
  proof (cases "day t < 1")
    case False
    with "1.prems" show ?thesis
      by (subst stepMon_bwd.simps) (simp add: dayInLimits_def)
  next
    case True
    define t1 where "t1 = fixMon (t\<lparr>mon := mon t - 1\<rparr>)"
    have m1: "monInLimits t1" using "1.prems"(1) by (simp add: t1_def)
    from monInLimits_numDaysOfMonth [OF m1] obtain n1 where n1: "numDaysOfMonth t1 = Some n1"
      by blast
    have d1: "day t1 = day t" by (simp add: t1_def)
    from "1.IH" [OF True t1_def n1, of n1] m1 n1 True d1 obtain t' where
      "stepMon_bwd (t1\<lparr>day := day t1 + n1\<rparr>) = Some t'" "monInLimits t'" "dayInLimits t' = Some True"
      by auto
    with n1 True show ?thesis
      by (subst stepMon_bwd.simps) (simp add: Let_def t1_def [symmetric])
  qed
qed

lemma stepMon_total:
  assumes "monInLimits t"
  shows "\<exists>t'. stepMon t = Some t' \<and> monInLimits t' \<and> dayInLimits t' = Some True"
proof -
  from stepMon_fwd_total [OF assms] obtain t1 n where
    "stepMon_fwd t = Some t1" "monInLimits t1" "numDaysOfMonth t1 = Some n" "day t1 \<le> n"
    by blast
  with stepMon_bwd_total [of t1 n] show ?thesis by (auto simp: stepMon_def)
qed

text \<open>The date is well formed: the month is in 1..12 and the day in the month.\<close>

definition date_ok :: "smart_tm \<Rightarrow> bool" where
  "date_ok t \<longleftrightarrow> monInLimits t \<and> dayInLimits t = Some True"

lemma fixDay_total:
  assumes "monInLimits t"
  shows "\<exists>t'. fixDay t = Some t' \<and> date_ok t' \<and> same_clock t t'"
proof -
  from monInLimits_numDaysOfMonth [OF assms] obtain n where n: "numDaysOfMonth t = Some n"
    by blast
  then obtain b where b: "dayInLimits t = Some b"
    by (cases "1 \<le> day t") (simp_all add: dayInLimits_def)
  show ?thesis
  proof (cases b)
    case True
    with b assms show ?thesis by (simp add: fixDay_def date_ok_def)
  next
    case False
    define t1 where "t1 = t\<lparr>yr := yr t + quot_trunc (day t - 1) 365,
      day := day t - quot_trunc (day t - 1) 365 * 365\<rparr>"
    have m1: "monInLimits t1" using assms by (simp add: t1_def monInLimits_def)
    from stepMonNoLeap_fwd_total [OF m1] obtain t1' where f: "stepMonNoLeap_fwd t1 = Some t1'"
      and m1': "monInLimits t1'" by blast
    from stepMonNoLeap_bwd_total [OF m1'] obtain t2 where g: "stepMonNoLeap_bwd t1' = Some t2"
      and m2: "monInLimits t2" by blast
    define t3 where "t3 = t2\<lparr>day := day t2 - leapDaysWalkedThroughFrom_tm (mk_tm (yr t) (mon t) 1 0 0 0 0) t2\<rparr>"
    have m3: "monInLimits t3" using m2 by (simp add: t3_def)
    from stepMon_total [OF m3] obtain t' where s: "stepMon t3 = Some t'"
      and ok: "monInLimits t'" "dayInLimits t' = Some True" by blast
    have fd: "fixDay t = Some t'"
      using b False f g s
      by (simp add: fixDay_def Let_def stepMonNoLeapCorrection_def t1_def [symmetric] t3_def [symmetric])
    from fixDay_clock [OF fd] fd ok show ?thesis by (simp add: date_ok_def)
  qed
qed

lemma date_ok_upd [simp]:
  "date_ok (t\<lparr>hr := h\<rparr>) = date_ok t"
  "date_ok (t\<lparr>min_tm := m\<rparr>) = date_ok t"
  "date_ok (t\<lparr>sec := s\<rparr>) = date_ok t"
  "date_ok (t\<lparr>fracSec := f\<rparr>) = date_ok t"
  by (simp_all add: date_ok_def)

lemma fixHr_total:
  assumes "date_ok t" "\<bar>hr t\<bar> < 2 ^ 53"
  shows "\<exists>t'. fixHr t = Some t' \<and> date_ok t' \<and> hrInLimits t' \<and>
           min_tm t' = min_tm t \<and> sec t' = sec t \<and> fracSec t' = fracSec t"
proof (cases "hrInLimits t")
  case True
  with assms show ?thesis by (simp add: fixHr_def)
next
  case False
  have q: "quot_floor (hr t) 24 = hr t div 24"
    using assms(2) by (intro quot_floor_exact) simp_all
  define t1 where "t1 = t\<lparr>day := day t + hr t div 24, hr := hr t - hr t div 24 * 24\<rparr>"
  have "monInLimits t1" using assms by (simp add: t1_def date_ok_def)
  from fixDay_total [OF this] obtain t' where f: "fixDay t1 = Some t'" and ok: "date_ok t'"
    and c: "same_clock t1 t'" by blast
  have "hr t1 = hr t mod 24"
    by (simp add: t1_def minus_div_mult_eq_mod)
  with c have "hrInLimits t'" by (simp add: same_clock_def hrInLimits_def)
  moreover have "fixHr t = fixDay t1"
    using False by (simp add: fixHr_def Let_def q t1_def)
  ultimately show ?thesis
    using f ok c by (simp add: same_clock_def) (simp add: t1_def)
qed

lemma hrInLimits_upd [simp]:
  "hrInLimits (t\<lparr>min_tm := m\<rparr>) = hrInLimits t"
  "hrInLimits (t\<lparr>sec := s\<rparr>) = hrInLimits t"
  "hrInLimits (t\<lparr>fracSec := f\<rparr>) = hrInLimits t"
  by (simp_all add: hrInLimits_def)

lemma minInLimits_upd [simp]:
  "minInLimits (t\<lparr>sec := s\<rparr>) = minInLimits t"
  "minInLimits (t\<lparr>fracSec := f\<rparr>) = minInLimits t"
  by (simp_all add: minInLimits_def)

definition clock_ok :: "smart_tm \<Rightarrow> bool" where
  "clock_ok t \<longleftrightarrow> date_ok t \<and> hrInLimits t \<and> minInLimits t"

lemma clock_ok_upd [simp]:
  "clock_ok (t\<lparr>sec := s\<rparr>) = clock_ok t"
  "clock_ok (t\<lparr>fracSec := f\<rparr>) = clock_ok t"
  by (simp_all add: clock_ok_def)

lemma carry_small:
  fixes h m :: int
  assumes "0 \<le> h" "h \<le> 59" "\<bar>m\<bar> < 2 ^ 53"
  shows "\<bar>h + m div 60\<bar> < 2 ^ 53"
proof -
  have "m div 60 \<le> \<bar>m\<bar> div 60" by (intro zdiv_mono1) simp_all
  moreover have "- \<bar>m\<bar> \<le> m div 60"
  proof -
    have "(- \<bar>m\<bar>) div 1 \<le> m div 60"
    proof (cases "0 \<le> m")
      case True
      then have "0 \<le> m div 60" by (simp add: pos_imp_zdiv_nonneg_iff)
      with True show ?thesis by simp
    next
      case False
      then have "m * 60 \<le> m" by simp
      then have "m * 60 div 60 \<le> m div 60" by (intro zdiv_mono1) simp_all
      with False show ?thesis by simp
    qed
    then show ?thesis by simp
  qed
  moreover have "\<bar>m\<bar> div 60 * 60 \<le> \<bar>m\<bar>" by simp
  ultimately have "- \<bar>m\<bar> \<le> h + m div 60" "(h + m div 60) * 60 \<le> 3540 + \<bar>m\<bar>"
    using assms(1,2) by simp_all
  then show ?thesis using assms(3) by (simp add: abs_if split: if_splits)
qed

lemma fixMin_total:
  assumes "date_ok t" "hrInLimits t" "\<bar>min_tm t\<bar> < 2 ^ 53"
  shows "\<exists>t'. fixMin t = Some t' \<and> clock_ok t' \<and> sec t' = sec t \<and> fracSec t' = fracSec t"
proof (cases "minInLimits t")
  case True
  with assms show ?thesis by (simp add: fixMin_def clock_ok_def)
next
  case False
  have q: "quot_floor (min_tm t) 60 = min_tm t div 60"
    using assms(3) by (intro quot_floor_exact) simp_all
  define t1 where "t1 = t\<lparr>hr := hr t + min_tm t div 60, min_tm := min_tm t - min_tm t div 60 * 60\<rparr>"
  have "date_ok t1" using assms by (simp add: t1_def)
  moreover have "\<bar>hr t1\<bar> < 2 ^ 53"
    using assms(2) carry_small [OF _ _ assms(3), of "hr t"] by (simp add: t1_def hrInLimits_def)
  ultimately obtain t' where f: "fixHr t1 = Some t'" and ok: "date_ok t'" "hrInLimits t'"
    and c: "min_tm t' = min_tm t1" "sec t' = sec t1" "fracSec t' = fracSec t1"
    using fixHr_total [of t1] by blast
  have "min_tm t1 = min_tm t mod 60"
    by (simp add: t1_def minus_div_mult_eq_mod)
  with c have "minInLimits t'" by (simp add: minInLimits_def)
  moreover have "fixMin t = fixHr t1"
    using False by (simp add: fixMin_def Let_def q t1_def)
  ultimately show ?thesis
    using f ok c by (simp add: clock_ok_def) (simp add: t1_def)
qed

lemma fixMin_total':
  assumes "clock_ok (t\<lparr>min_tm := m\<rparr>)" "\<bar>m'\<bar> < 2 ^ 53"
  shows "\<exists>t'. fixMin (t\<lparr>min_tm := m'\<rparr>) = Some t' \<and> clock_ok t' \<and> sec t' = sec t \<and> fracSec t' = fracSec t"
proof -
  have "date_ok (t\<lparr>min_tm := m'\<rparr>)" "hrInLimits (t\<lparr>min_tm := m'\<rparr>)"
    using assms by (simp_all add: clock_ok_def)
  from fixMin_total [OF this] assms(2) show ?thesis by simp
qed

lemma isLeapMinute_loop_upd [simp]:
  "isLeapMinute_loop (t\<lparr>sec := s\<rparr>) ls = isLeapMinute_loop t ls"
  "isLeapMinute_loop (t\<lparr>fracSec := f\<rparr>) ls = isLeapMinute_loop t ls"
  by (induction ls) simp_all

lemma numSecondsOfMinute_upd [simp]:
  "numSecondsOfMinute S (t\<lparr>sec := s\<rparr>) = numSecondsOfMinute S t"
  "numSecondsOfMinute S (t\<lparr>fracSec := f\<rparr>) = numSecondsOfMinute S t"
  by (simp_all add: numSecondsOfMinute_def isLeapMinute_def)

lemma clock_ok_fixMin:
  assumes "clock_ok t" "\<bar>m\<bar> < 2 ^ 53"
  shows "\<exists>t'. fixMin (t\<lparr>sec := s, min_tm := m\<rparr>) = Some t' \<and> clock_ok t' \<and> sec t' = s \<and>
           fracSec t' = fracSec t"
proof -
  have "date_ok (t\<lparr>sec := s, min_tm := m\<rparr>)" "hrInLimits (t\<lparr>sec := s, min_tm := m\<rparr>)"
    using assms by (simp_all add: clock_ok_def)
  from fixMin_total [OF this] assms(2) show ?thesis by simp
qed

lemma clock_ok_min: "clock_ok t \<Longrightarrow> 0 \<le> min_tm t \<and> min_tm t \<le> 59"
  by (simp add: clock_ok_def minInLimits_def)

lemma fixSec_fwd_total:
  "clock_ok t \<Longrightarrow>
     \<exists>t'. fixSec_fwd S t = Some t' \<and> clock_ok t' \<and> sec t' \<le> numSecondsOfMinute S t' - 1 \<and>
       fracSec t' = fracSec t"
proof (induction S t rule: fixSec_fwd.induct)
  case (1 S t)
  show ?case
  proof (cases "sec t > 0 + numSecondsOfMinute S t - 1")
    case False
    with "1.prems" show ?thesis by (subst fixSec_fwd.simps) simp
  next
    case True
    have "\<bar>min_tm t + 1\<bar> < 2 ^ 53" using clock_ok_min [OF "1.prems"] by (simp add: abs_if)
    from clock_ok_fixMin [OF "1.prems" this, where s = "sec t - numSecondsOfMinute S t"]
    obtain t1 where f: "fixMin (t\<lparr>sec := sec t - numSecondsOfMinute S t, min_tm := min_tm t + 1\<rparr>) = Some t1"
      and ok: "clock_ok t1" and fr: "fracSec t1 = fracSec t" by blast
    from "1.IH" [OF True f ok] fr obtain t' where
      "fixSec_fwd S t1 = Some t'" "clock_ok t'" "sec t' \<le> numSecondsOfMinute S t' - 1"
      "fracSec t' = fracSec t" by auto
    with f True show ?thesis by (subst fixSec_fwd.simps) simp
  qed
qed

lemma fixSec_bwd_total:
  "clock_ok t \<Longrightarrow> sec t \<le> numSecondsOfMinute S t - 1 \<Longrightarrow>
     \<exists>t'. fixSec_bwd S t = Some t' \<and> clock_ok t' \<and> secInLimits S t' \<and> fracSec t' = fracSec t"
proof (induction S t rule: fixSec_bwd.induct)
  case (1 S t)
  show ?case
  proof (cases "sec t < 0")
    case False
    with "1.prems" show ?thesis by (subst fixSec_bwd.simps) (simp add: secInLimits_def)
  next
    case True
    have "\<bar>min_tm t - 1\<bar> < 2 ^ 53" using clock_ok_min [OF "1.prems"(1)] by (simp add: abs_if)
    from clock_ok_fixMin [OF "1.prems"(1) this, where s = "sec t"]
    obtain t1 where f: "fixMin (t\<lparr>min_tm := min_tm t - 1\<rparr>) = Some t1"
      and ok: "clock_ok t1" and se: "sec t1 = sec t" and fr: "fracSec t1 = fracSec t" by auto
    have "clock_ok (t1\<lparr>sec := sec t1 + numSecondsOfMinute S t1\<rparr>)"
      "sec (t1\<lparr>sec := sec t1 + numSecondsOfMinute S t1\<rparr>) \<le>
         numSecondsOfMinute S (t1\<lparr>sec := sec t1 + numSecondsOfMinute S t1\<rparr>) - 1"
      using ok se True by simp_all
    from "1.IH" [OF True f this] fr obtain t' where
      "fixSec_bwd S (t1\<lparr>sec := sec t1 + numSecondsOfMinute S t1\<rparr>) = Some t'" "clock_ok t'"
      "secInLimits S t'" "fracSec t' = fracSec t" by auto
    with f True show ?thesis by (subst fixSec_bwd.simps) simp
  qed
qed

lemma clock_ok_mon: "clock_ok t \<Longrightarrow> mon t \<le> 13"
  by (simp add: clock_ok_def date_ok_def monInLimits_def)

lemma fixSec_total:
  assumes "clock_ok t" "\<bar>sec t\<bar> < 2 ^ 53"
  shows "\<exists>t'. fixSec S t = Some t' \<and> clock_ok t' \<and> secInLimits S t' \<and> fracSec t' = fracSec t"
proof (cases "secInLimits S t")
  case True
  with assms show ?thesis by (simp add: fixSec_def)
next
  case False
  define t0 where "t0 = t\<lparr>sec := 0\<rparr>"
  have ok0: "clock_ok t0" using assms by (simp add: t0_def)
  obtain oldEpoch where oe: "toEpoch S t0 = Some oldEpoch"
    using clock_ok_mon [OF ok0] by (simp add: toEpoch_eq)
  have q: "quot_floor (sec t) 60 = sec t div 60"
    using assms(2) by (intro quot_floor_exact) simp_all
  define t1 where "t1 = t0\<lparr>min_tm := min_tm t0 + sec t div 60\<rparr>"
  have "\<bar>min_tm t0 + sec t div 60\<bar> < 2 ^ 53"
    using clock_ok_min [OF ok0] by (intro carry_small assms(2)) simp_all
  from clock_ok_fixMin [OF ok0 this, where s = 0]
  obtain t2 where f2: "fixMin t1 = Some t2" and ok2: "clock_ok t2" and fr2: "fracSec t2 = fracSec t"
    by (auto simp: t1_def t0_def)
  define t3 where "t3 = t2\<lparr>sec := sec t - sec t div 60 * 60\<rparr>"
  have ok3: "clock_ok t3" using ok2 by (simp add: t3_def)
  obtain newEpoch where ne: "toEpoch S t3 = Some newEpoch"
    using clock_ok_mon [OF ok3] by (simp add: toEpoch_eq)
  define t4 where "t4 = t3\<lparr>sec := sec t3 - leapSecondsWalkedThroughFrom S oldEpoch newEpoch\<rparr>"
  have ok4: "clock_ok t4" using ok3 by (simp add: t4_def)
  then have "minInLimits t4" by (simp add: clock_ok_def)
  then have f5: "fixMin t4 = Some t4" by (simp add: fixMin_def)
  from fixSec_fwd_total [OF ok4, of S] obtain t6 where f6: "fixSec_fwd S t4 = Some t6"
    and ok6: "clock_ok t6" "sec t6 \<le> numSecondsOfMinute S t6 - 1" and fr6: "fracSec t6 = fracSec t4"
    by blast
  from fixSec_bwd_total [OF ok6] obtain t' where f7: "fixSec_bwd S t6 = Some t'"
    and ok7: "clock_ok t'" "secInLimits S t'" and fr7: "fracSec t' = fracSec t6" by blast
  have "fixSec S t = Some t'"
    using False oe f2 ne f5 f6 f7
    by (simp add: fixSec_def Let_def q t0_def [symmetric] t1_def [symmetric] t3_def [symmetric]
        t4_def [symmetric])
  moreover have "fracSec t' = fracSec t"
    using fr7 fr6 fr2 by (simp add: t4_def t3_def)
  ultimately show ?thesis using ok7 by simp
qed

text \<open>
  \<^verbatim>\<open>fixFracSec\<close> subtracts \<open>floor(fracSec)\<close> in double arithmetic: the difference is at
  least 0, and it is below 1 unless the rounding reaches 1.
\<close>

lemma fixFracSec_total:
  assumes "clock_ok t" "secInLimits S t"
    and d: "is_double (fracSec t)" "\<bar>\<lfloor>fracSec t\<rfloor>\<bar> < 2 ^ 52"
    and r: "dbl_sub (fracSec t) (of_int \<lfloor>fracSec t\<rfloor>) < 1"
  shows "\<exists>t'. fixFracSec S t = Some t' \<and> clock_ok t' \<and> secInLimits S t' \<and> fracSecInLimits t'"
proof (cases "fracSecInLimits t")
  case True
  with assms show ?thesis by (simp add: fixFracSec_def)
next
  case False
  have c: "\<lfloor>dbl_sub (fracSec t) 0\<rfloor> = \<lfloor>fracSec t\<rfloor>"
    using d(1) by (simp add: dbl_sub_def is_double_def)
  have e: "dbl_of_int \<lfloor>fracSec t\<rfloor> = of_int \<lfloor>fracSec t\<rfloor>"
    using d(2) by (intro dbl_of_int_exact) simp
  define t1 where "t1 = t\<lparr>sec := sec t + \<lfloor>fracSec t\<rfloor>,
    fracSec := dbl_sub (fracSec t) (of_int \<lfloor>fracSec t\<rfloor>)\<rparr>"
  have "clock_ok t1" using assms(1) by (simp add: t1_def)
  moreover have "\<bar>sec t1\<bar> < 2 ^ 53"
  proof -
    have "\<bar>s + c\<bar> < 2 ^ 53" if "\<bar>c\<bar> < 2 ^ 52" "0 \<le> s" "s \<le> 60" for s c :: int
      using that by (simp add: abs_if split: if_splits)
    from this [OF d(2), of "sec t"] assms(2) numSecondsOfMinute_ge [of S t]
    show ?thesis by (simp add: t1_def secInLimits_def)
  qed
  ultimately obtain t' where f: "fixSec S t1 = Some t'"
    and ok: "clock_ok t'" "secInLimits S t'" and fr: "fracSec t' = fracSec t1"
    using fixSec_total [of t1 S] by blast
  have "0 \<le> fracSec t - of_int \<lfloor>fracSec t\<rfloor>" by linarith
  then have "0 \<le> fracSec t1"
    unfolding t1_def dbl_sub_def by (simp add: rd_nonneg)
  moreover have "fracSec t1 < 1" using r by (simp add: t1_def)
  ultimately have "fracSecInLimits t'" using fr by (simp add: fracSecInLimits_def)
  with f ok False show ?thesis
    by (simp add: fixFracSec_def Let_def c e t1_def)
qed

lemma adjust_total:
  assumes b: "\<bar>mon t - 1\<bar> < 2 ^ 53" "\<bar>hr t\<bar> < 2 ^ 53" "\<bar>min_tm t\<bar> < 2 ^ 53" "\<bar>sec t\<bar> < 2 ^ 53"
    and d: "is_double (fracSec t)" "\<bar>\<lfloor>fracSec t\<rfloor>\<bar> < 2 ^ 52"
    and r: "dbl_sub (fracSec t) (of_int \<lfloor>fracSec t\<rfloor>) < 1"
  shows "\<exists>t'. adjust S t = Some t' \<and> clock_ok t' \<and> secInLimits S t' \<and> fracSecInLimits t'"
proof (cases "isValid S t")
  case True
  then show ?thesis by (simp add: adjust_def isValid_def clock_ok_def date_ok_def)
next
  case False
  from fixDay_total [OF fixMon_monInLimits [OF b(1)]] obtain t2
    where f2: "fixDay (fixMon t) = Some t2" and ok2: "date_ok t2" and c2: "same_clock (fixMon t) t2"
    by auto
  have e2: "hr t2 = hr t" "min_tm t2 = min_tm t" "sec t2 = sec t" "fracSec t2 = fracSec t"
    using c2 same_clock_fixMon [of t] by (simp_all add: same_clock_def)
  from fixHr_total [OF ok2] b(2) e2(1) obtain t3 where f3: "fixHr t2 = Some t3"
    and ok3: "date_ok t3" "hrInLimits t3"
    and e3: "min_tm t3 = min_tm t2" "sec t3 = sec t2" "fracSec t3 = fracSec t2" by auto
  from fixMin_total [OF ok3] b(3) e2(2) e3(1) obtain t4 where f4: "fixMin t3 = Some t4"
    and ok4: "clock_ok t4" and e4: "sec t4 = sec t3" "fracSec t4 = fracSec t3"
    by auto
  from fixSec_total [OF ok4, of S] b(4) e2(3) e3(2) e4(1) obtain t5 where f5: "fixSec S t4 = Some t5"
    and ok5: "clock_ok t5" "secInLimits S t5" and e5: "fracSec t5 = fracSec t4" by auto
  have e: "fracSec t5 = fracSec t" using e5 e4(2) e3(3) e2(4) by simp
  from fixFracSec_total [OF ok5] d r obtain t' where f6: "fixFracSec S t5 = Some t'"
    and ok6: "clock_ok t'" "secInLimits S t'" "fracSecInLimits t'" by (auto simp: e)
  from False f2 f3 f4 f5 f6 ok6 show ?thesis by (simp add: adjust_def)
qed

text \<open>
  Where the double arithmetic of the carries is exact, \<^verbatim>\<open>adjust\<close> does what its header
  promises. It returns (each of its loops ends, and no read of \<^verbatim>\<open>days\<close> leaves the
  table) and leaves a timestamp within the six bounds (month 1..12, day within the
  leap-aware length of the month, hour 0..23, minute 0..59, second within the leap-aware
  length of the minute, fractional second in [0, 1)), valid if its year lies between the
  epoch year and 9999, for every state of the tables and every timestamp whose month,
  hour, minute and second are below \<open>2 ^ 53\<close> in absolute value, so that they convert to
  \<^verbatim>\<open>double\<close> exactly, and whose fractional second is a double, below \<open>2 ^ 52\<close> in
  absolute value, such that \<open>fracSec - floor(fracSec)\<close>, rounded to double, is below 1.
  The year and the day are any integers (signed overflow is outside the model).
\<close>

theorem adjust_terminates_valid:
  assumes "\<bar>mon t - 1\<bar> < 2 ^ 53" "\<bar>hr t\<bar> < 2 ^ 53" "\<bar>min_tm t\<bar> < 2 ^ 53" "\<bar>sec t\<bar> < 2 ^ 53"
    and "is_double (fracSec t)" "\<bar>\<lfloor>fracSec t\<rfloor>\<bar> < 2 ^ 52"
    and "dbl_sub (fracSec t) (of_int \<lfloor>fracSec t\<rfloor>) < 1"
  shows "\<exists>t'. adjust S t = Some t' \<and> monInLimits t' \<and> dayInLimits t' = Some True \<and>
     hrInLimits t' \<and> minInLimits t' \<and> secInLimits S t' \<and> fracSecInLimits t' \<and>
     (yrInLimits S t' \<longrightarrow> isValid S t')"
  using adjust_total [OF assms, of S] by (auto simp: clock_ok_def date_ok_def isValid_def)

theorem adjust_terminates_valid_witness:
  "\<bar>mon (mk_tm 2012 3 5 14 30 200 0) - 1\<bar> < 2 ^ 53 \<and>
   \<bar>hr (mk_tm 2012 3 5 14 30 200 0)\<bar> < 2 ^ 53 \<and>
   \<bar>min_tm (mk_tm 2012 3 5 14 30 200 0)\<bar> < 2 ^ 53 \<and>
   \<bar>sec (mk_tm 2012 3 5 14 30 200 0)\<bar> < 2 ^ 53 \<and>
   is_double (fracSec (mk_tm 2012 3 5 14 30 200 0)) \<and>
   \<bar>\<lfloor>fracSec (mk_tm 2012 3 5 14 30 200 0)\<rfloor>\<bar> < 2 ^ 52 \<and>
   dbl_sub (fracSec (mk_tm 2012 3 5 14 30 200 0))
     (of_int \<lfloor>fracSec (mk_tm 2012 3 5 14 30 200 0)\<rfloor>) < 1 \<and>
   adjust sys_1990 (mk_tm 2012 3 5 14 30 200 0) = Some (mk_tm 2012 3 5 14 33 20 0) \<and>
   yrInLimits sys_1990 (mk_tm 2012 3 5 14 33 20 0) \<and>
   isValid sys_1990 (mk_tm 2012 3 5 14 33 20 0)"
proof -
  have a: "adjust sys_1990 (mk_tm 2012 3 5 14 30 200 0) = Some (mk_tm 2012 3 5 14 33 20 0)"
    by code_simp
  have y: "yrInLimits sys_1990 (mk_tm 2012 3 5 14 33 20 0)"
    by (simp add: yrInLimits_def sys_1990_def mk_tm_def END_YR_def)
  have h: "\<bar>mon (mk_tm 2012 3 5 14 30 200 0) - 1\<bar> < 2 ^ 53"
    "\<bar>hr (mk_tm 2012 3 5 14 30 200 0)\<bar> < 2 ^ 53"
    "\<bar>min_tm (mk_tm 2012 3 5 14 30 200 0)\<bar> < 2 ^ 53"
    "\<bar>sec (mk_tm 2012 3 5 14 30 200 0)\<bar> < 2 ^ 53"
    "is_double (fracSec (mk_tm 2012 3 5 14 30 200 0))"
    "\<bar>\<lfloor>fracSec (mk_tm 2012 3 5 14 30 200 0)\<rfloor>\<bar> < 2 ^ 52"
    "dbl_sub (fracSec (mk_tm 2012 3 5 14 30 200 0))
       (of_int \<lfloor>fracSec (mk_tm 2012 3 5 14 30 200 0)\<rfloor>) < 1"
    by (simp_all add: mk_tm_def is_double_def dbl_sub_def)
  from adjust_terminates_valid [OF h, of sys_1990] a y h
  show ?thesis by auto
qed

text \<open>
  C5. \<^verbatim>\<open>adjust\<close> is to leave every timestamp with finite fields within the six bounds,
  the fractional second in [0, 1). It does not: \<^verbatim>\<open>fixFracSec\<close> computes
  \<open>fracSec - floor(fracSec)\<close> in double arithmetic, and for \<open>fracSec = - 2 ^ - 60\<close> the
  difference \<open>1 - 2 ^ - 60\<close> rounds to \<open>1.0\<close>. In the state after
  \<^verbatim>\<open>init(1990, "leap-seconds.list")\<close>, \<^verbatim>\<open>adjust\<close> turns
  (2012, 3, 5, 14, 30, 20, \<open>- 2 ^ - 60\<close>) into (2012, 3, 5, 14, 30, 19, 1.0), whose year is
  within the limits and whose fractional second is not in [0, 1): it is not valid.
\<close>

theorem adjust_fracSec_counterexample:
  "adjust sys_1990 (mk_tm 2012 3 5 14 30 20 (- (1 / 2 ^ 60))) =
     Some (mk_tm 2012 3 5 14 30 19 1) \<and>
   yrInLimits sys_1990 (mk_tm 2012 3 5 14 30 19 1) \<and>
   \<not> fracSecInLimits (mk_tm 2012 3 5 14 30 19 1) \<and>
   \<not> isValid sys_1990 (mk_tm 2012 3 5 14 30 19 1)"
proof -
  define t where "t = mk_tm 2012 3 5 14 30 20 (- (1 / 2 ^ 60))"
  have lm: "\<not> isLeapMinute sys_1990 t" "\<not> isLeapMinute sys_1990 (mk_tm 2012 3 5 14 30 19 1)"
    by (simp_all add: isLeapMinute_def sys_1990_def mk_tm_def t_def)
  have v: "\<not> isValid sys_1990 t"
    by (simp add: isValid_def fracSecInLimits_def t_def mk_tm_def)
  have m: "fixMon t = t"
    by (simp add: fixMon_def monInLimits_def t_def mk_tm_def)
  have dd: "fixDay t = Some t"
    by (simp add: fixDay_def dayInLimits_def numDaysOfMonth_def days_at_def days_def t_def mk_tm_def)
  have h: "fixHr t = Some t"
    by (simp add: fixHr_def hrInLimits_def t_def mk_tm_def)
  have mi: "fixMin t = Some t"
    by (simp add: fixMin_def minInLimits_def t_def mk_tm_def)
  have s: "fixSec sys_1990 t = Some t"
    using lm(1) by (simp add: fixSec_def secInLimits_def numSecondsOfMinute_def) (simp add: t_def mk_tm_def)
  have ft: "fracSec t = - (1 / 2 ^ 60)" by (simp add: t_def mk_tm_def)
  have r0: "rd (- (1 / 2 ^ 60)) = - (1 / 2 ^ 60)"
    using rd_dyadic [of "- 1" 60] by simp
  have ds: "dbl_sub (fracSec t) 0 = - (1 / 2 ^ 60)"
    unfolding ft dbl_sub_def by (simp only: diff_zero r0)
  have fl: "\<lfloor>- (1 / 2 ^ 60) :: real\<rfloor> = - 1" by (rule floor_unique) simp_all
  have c: "\<lfloor>dbl_sub (fracSec t) 0\<rfloor> = - 1"
    unfolding ds by (rule fl)
  have nf: "\<not> fracSecInLimits t" by (simp add: fracSecInLimits_def ft)
  have "dbl_of_int (- 1) = - 1"
    using dbl_of_int_exact [of "- 1"] by simp
  moreover have "- (1 / 2 ^ 60) - (- 1) = (1 - 1 / 2 ^ 60 :: real)" by simp
  ultimately have f: "dbl_sub (fracSec t) (dbl_of_int (- 1)) = 1"
    unfolding ft dbl_sub_def by (simp only: rd_below_one)
  have s': "fixSec sys_1990 (mk_tm 2012 3 5 14 30 19 1) = Some (mk_tm 2012 3 5 14 30 19 1)"
    using lm(2) by (simp add: fixSec_def secInLimits_def numSecondsOfMinute_def) (simp add: mk_tm_def)
  have "fixFracSec sys_1990 t = Some (mk_tm 2012 3 5 14 30 19 1)"
  proof -
    have tt: "t\<lparr>sec := sec t - 1, fracSec := 1\<rparr> = mk_tm 2012 3 5 14 30 19 1"
      by (simp add: t_def mk_tm_def)
    have "fixFracSec sys_1990 t = fixSec sys_1990 (t\<lparr>sec := sec t - 1, fracSec := 1\<rparr>)"
      using nf dbl_to_int_of_int [of "- 1"] by (simp add: fixFracSec_def Let_def c f)
    then show ?thesis unfolding tt s' .
  qed
  then have "adjust sys_1990 t = Some (mk_tm 2012 3 5 14 30 19 1)"
    using v by (simp add: adjust_def m dd h mi s)
  moreover have "yrInLimits sys_1990 (mk_tm 2012 3 5 14 30 19 1)"
    by (simp add: yrInLimits_def sys_1990_def mk_tm_def END_YR_def)
  moreover have "\<not> fracSecInLimits (mk_tm 2012 3 5 14 30 19 1)"
    by (simp add: fracSecInLimits_def mk_tm_def)
  ultimately show ?thesis by (simp add: isValid_def t_def)
qed

section \<open>The round trip at epoch year 0\<close>

lemma init_0: "init fs_official 0 ''leap-seconds.list'' initial_sys = Some sys_0"
  by code_simp

text \<open>
  C1 at the epoch year 0. After \<^verbatim>\<open>init(0, "leap-seconds.list")\<close> the timestamp
  0000-02-29 00:00:00 is valid (\<^verbatim>\<open>isLeapYear\<close> holds for the year 0, so February has 29
  days), \<^verbatim>\<open>toEpoch\<close> gives 5097600 for it, which is 59 days, and the constructor from
  5097600 gives 0000-03-01 00:00:00, which also has \<^verbatim>\<open>toEpoch\<close> 5097600: the leap-day
  counter divides the calculation year -1 with truncation and so does not count the
  leap day of the year 0.
\<close>

theorem roundtrip_year0_counterexample:
  "init fs_official 0 ''leap-seconds.list'' initial_sys = Some sys_0 \<and>
   isValid sys_0 (mk_tm 0 2 29 0 0 0 0) \<and>
   toEpoch sys_0 (mk_tm 0 2 29 0 0 0 0) = Some 5097600 \<and>
   snd (smart_tm_sinceEpoch sys_0 5097600) = Some (mk_tm 0 3 1 0 0 0 0) \<and>
   \<not> equalsNoFrac (mk_tm 0 3 1 0 0 0 0) (mk_tm 0 2 29 0 0 0 0) \<and>
   toEpoch sys_0 (mk_tm 0 3 1 0 0 0 0) = Some 5097600"
proof -
  have v: "isValid sys_0 (mk_tm 0 2 29 0 0 0 0)"
    by code_simp
  have e: "toEpoch sys_0 (mk_tm 0 2 29 0 0 0 0) = Some 5097600"
    by code_simp
  have c: "snd (smart_tm_sinceEpoch sys_0 5097600) = Some (mk_tm 0 3 1 0 0 0 0)"
    by code_simp
  have n: "\<not> equalsNoFrac (mk_tm 0 3 1 0 0 0 0) (mk_tm 0 2 29 0 0 0 0)"
    by (simp add: equalsNoFrac_def mk_tm_def)
  have e': "toEpoch sys_0 (mk_tm 0 3 1 0 0 0 0) = Some 5097600"
    by code_simp
  from init_0 v e c n e' show ?thesis by (intro conjI)
qed

end
